theory Spec2Isabelle
  imports Main "HOL-Library.Word"
begin

section \<open>ConcurrentQueue (con_queue.hpp): memory model\<close>

text \<open>
  The queue is a chain of heap nodes reached through an owning pointer \<open>front_\<close> and a
  raw pointer \<open>rear_\<close>. Several claims are about these pointers and about two queue
  objects at once, so the model keeps an explicit store:
  \<^item> a pointer is a 64-bit word, \<open>nullptr\<close> is 0;
  \<^item> the node heap maps the address of every live node to its contents;
  \<^item> every \<open>ConcurrentQueue\<close> object has an identity (\<open>this\<close>, \<open>&other\<close>), a natural
    number, and the store maps it to the object's members;
  \<^item> \<open>std::size_t\<close> is a 64-bit word, so \<open>size_++\<close> and \<open>size_--\<close> wrap.
  Isabelle does not accept a trailing underscore in a name: the member \<open>front_\<close> is
  written \<open>front'\<close>, and likewise \<open>rear'\<close>, \<open>size'\<close>, \<open>mutex'\<close>.
\<close>

type_synonym addr = "64 word"

text \<open>
  Modelled from the spec: \<open>node.hpp\<close> is not among the sources. The spec says a node
  "holds one element value of type T and an exclusively-owned link to the next node (or
  none)"; the queue's code reads and writes the members \<open>data\<close> and \<open>next\<close>.
\<close>

record 'a Node =
  data :: 'a
  "next" :: addr

record ConcurrentQueue =
  front' :: addr
  rear' :: addr
  size' :: "64 word"
  mutex' :: bool

type_synonym 'a heap = "addr \<Rightarrow> 'a Node option"

record 'a state =
  heap :: "'a heap"
  brk :: addr
  objs :: "nat \<Rightarrow> ConcurrentQueue"

text \<open>
  What an operation can do other than return: \<open>std::bad_alloc\<close> from
  \<open>std::make_unique\<close>, locking a mutex that is already held (the calling thread can
  never get it: the sequential model has no other thread to release it), and
  dereferencing a pointer that is null or does not point to a live node.
\<close>

datatype error = BadAlloc | Deadlock | InvalidPointer

definition obj_update ::
  "nat \<Rightarrow> (ConcurrentQueue \<Rightarrow> ConcurrentQueue) \<Rightarrow> 'a state \<Rightarrow> 'a state" where
  "obj_update this f st = st\<lparr>objs := (objs st)(this := f (objs st this))\<rparr>"

subsection \<open>Allocation and deallocation\<close>

text \<open>
  \<open>std::make_unique<Node<T>>(std::move(value))\<close>: the allocator hands out the
  addresses 1, 2, 3, ... in turn (\<open>brk\<close> is the next one) and never hands out
  \<open>nullptr\<close>; once the address space is used up (\<open>brk\<close> has wrapped to 0) it throws.
  The new node holds the value and a null link.
\<close>

definition make_unique :: "'a \<Rightarrow> 'a state \<Rightarrow> error + (addr \<times> 'a state)" where
  "make_unique v st =
     (if brk st = 0 then Inl BadAlloc
      else Inr (brk st,
                st\<lparr>heap := (heap st)(brk st \<mapsto> \<lparr>data = v, next = 0\<rparr>),
                   brk := brk st + 1\<rparr>))"

text \<open>
  What \<open>std::unique_ptr\<close> does to the node it owns when it is reset, assigned over or
  destroyed: nothing for a null pointer; otherwise the node is destroyed, which destroys
  the member \<open>next\<close> and so the rest of the chain, and its memory is released.
  Deleting a pointer to no live node is undefined behaviour.
\<close>

function delete_node :: "addr \<Rightarrow> 'a heap \<Rightarrow> error + 'a heap" where
  "delete_node p h =
     (if p = 0 then Inr h
      else case h p of
             None \<Rightarrow> Inl InvalidPointer
           | Some n \<Rightarrow> delete_node (next n) (h(p := None)))"
  by pat_completeness auto
termination
proof (relation "measure (\<lambda>(p, h). card (dom h))")
  show "wf (measure (\<lambda>(p, h::'a heap). card (dom h)))" by simp
next
  fix p :: addr and h :: "'a heap" and n
  assume "p \<noteq> 0" "h p = Some n"
  then have "p \<in> dom h" by auto
  then have "card (dom h - {p}) < card (dom h)"
    by (intro card_Diff1_less) auto
  then show "((next n, h(p := None)), (p, h)) \<in> measure (\<lambda>(p, h). card (dom h))"
    by simp
qed

declare delete_node.simps [simp del]

subsection \<open>The mutex and the condition variable\<close>

text \<open>
  \<open>std::lock_guard\<close> / \<open>std::unique_lock\<close> on \<open>mutex_\<close>, and their release at the end
  of the scope. \<open>lock2\<close> is \<open>std::lock(mutex_, other.mutex_)\<close> followed by the two
  adopting guards.
\<close>

definition lock :: "nat \<Rightarrow> 'a state \<Rightarrow> error + 'a state" where
  "lock this st =
     (if mutex' (objs st this) then Inl Deadlock
      else Inr (obj_update this (\<lambda>q. q\<lparr>mutex' := True\<rparr>) st))"

definition unlock :: "nat \<Rightarrow> 'a state \<Rightarrow> 'a state" where
  "unlock this st = obj_update this (\<lambda>q. q\<lparr>mutex' := False\<rparr>) st"

definition lock2 :: "nat \<Rightarrow> nat \<Rightarrow> 'a state \<Rightarrow> error + 'a state" where
  "lock2 this other st =
     (case lock this st of
        Inl e \<Rightarrow> Inl e
      | Inr st1 \<Rightarrow> lock other st1)"

definition empty_unsafe :: "nat \<Rightarrow> 'a state \<Rightarrow> bool" where
  "empty_unsafe this st = (front' (objs st this) = 0)"

text \<open>
  \<open>not_empty_cv_.wait(lock, pred)\<close> is \<open>while (!pred()) wait(lock);\<close>. With no other
  thread to push, a wake-up finds the queue as it was, so on an empty queue the loop
  never ends: the result \<open>None\<close>.
\<close>

partial_function (option) cv_wait :: "nat \<Rightarrow> 'a state \<Rightarrow> 'a state option" where
  "cv_wait this st = (if \<not> empty_unsafe this st then Some st else cv_wait this st)"

text \<open>
  \<open>not_empty_cv_.wait_for(lock, timeout, pred)\<close> is
  \<open>while (!pred()) if (wait_until(lock, deadline) == timeout) return pred(); return true;\<close>.
  With no other thread to push, the wait on an empty queue ends by the deadline, and the
  predicate is evaluated once more on the same queue.
\<close>

definition cv_wait_for :: "nat \<Rightarrow> nat \<Rightarrow> 'a state \<Rightarrow> bool" where
  "cv_wait_for this timeout st =
     (if \<not> empty_unsafe this st then True else \<not> empty_unsafe this st)"

section \<open>The operations\<close>

subsection \<open>Insertion\<close>

definition push_unsafe :: "nat \<Rightarrow> 'a \<Rightarrow> 'a state \<Rightarrow> error + 'a state" where
  "push_unsafe this v st =
     (case make_unique v st of
        Inl e \<Rightarrow> Inl e
      | Inr (newNode, st1) \<Rightarrow>
          if front' (objs st1 this) = 0 then
            Inr (obj_update this
                   (\<lambda>q. q\<lparr>front' := newNode, rear' := newNode, size' := size' q + 1\<rparr>) st1)
          else
            (case heap st1 (rear' (objs st1 this)) of
               None \<Rightarrow> Inl InvalidPointer
             | Some r \<Rightarrow>
                 (case delete_node (next r)
                         ((heap st1)(rear' (objs st1 this) \<mapsto> r\<lparr>next := newNode\<rparr>)) of
                    Inl e \<Rightarrow> Inl e
                  | Inr h2 \<Rightarrow>
                      (case h2 (rear' (objs st1 this)) of
                         None \<Rightarrow> Inl InvalidPointer
                       | Some r2 \<Rightarrow>
                           Inr (obj_update this
                                  (\<lambda>q. q\<lparr>rear' := next r2, size' := size' q + 1\<rparr>)
                                  (st1\<lparr>heap := h2\<rparr>))))))"

definition push :: "nat \<Rightarrow> 'a \<Rightarrow> 'a state \<Rightarrow> error + 'a state" where
  "push this v st =
     (case lock this st of
        Inl e \<Rightarrow> Inl e
      | Inr st1 \<Rightarrow>
          (case push_unsafe this v st1 of
             Inl e \<Rightarrow> Inl e
           | Inr st2 \<Rightarrow> Inr (unlock this st2)))"

subsection \<open>Removal and peek\<close>

text \<open>
  The out-parameter \<open>T& value\<close> is passed in and returned. \<open>try_pop\<close>, the timed \<open>pop\<close>
  and \<open>try_peek\<close> return the \<open>bool\<close> as well. The blocking \<open>pop\<close> returns \<open>None\<close>
  when its wait never ends.
\<close>

definition try_pop :: "nat \<Rightarrow> 'a \<Rightarrow> 'a state \<Rightarrow> error + (bool \<times> 'a \<times> 'a state)" where
  "try_pop this v st =
     (case lock this st of
        Inl e \<Rightarrow> Inl e
      | Inr st1 \<Rightarrow>
          if empty_unsafe this st1 then Inr (False, v, unlock this st1)
          else
            (case heap st1 (front' (objs st1 this)) of
               None \<Rightarrow> Inl InvalidPointer
             | Some f \<Rightarrow>
                 let st2 = (if front' (objs st1 this) = rear' (objs st1 this)
                            then obj_update this (\<lambda>q. q\<lparr>rear' := 0\<rparr>) st1 else st1);
                     old = front' (objs st2 this)
                 in (case delete_node old ((heap st2)(old \<mapsto> f\<lparr>next := 0\<rparr>)) of
                       Inl e \<Rightarrow> Inl e
                     | Inr h3 \<Rightarrow>
                         Inr (True, data f,
                              unlock this
                                (obj_update this
                                   (\<lambda>q. q\<lparr>front' := next f, size' := size' q - 1\<rparr>)
                                   (st2\<lparr>heap := h3\<rparr>))))))"

definition pop :: "nat \<Rightarrow> 'a \<Rightarrow> 'a state \<Rightarrow> (error + ('a \<times> 'a state)) option" where
  "pop this v st =
     (case lock this st of
        Inl e \<Rightarrow> Some (Inl e)
      | Inr st0 \<Rightarrow>
          (case cv_wait this st0 of
             None \<Rightarrow> None
           | Some st1 \<Rightarrow>
               (case heap st1 (front' (objs st1 this)) of
                  None \<Rightarrow> Some (Inl InvalidPointer)
                | Some f \<Rightarrow>
                    let st2 = (if front' (objs st1 this) = rear' (objs st1 this)
                               then obj_update this (\<lambda>q. q\<lparr>rear' := 0\<rparr>) st1 else st1);
                        old = front' (objs st2 this)
                    in (case delete_node old ((heap st2)(old \<mapsto> f\<lparr>next := 0\<rparr>)) of
                          Inl e \<Rightarrow> Some (Inl e)
                        | Inr h3 \<Rightarrow>
                            Some (Inr (data f,
                                 unlock this
                                   (obj_update this
                                      (\<lambda>q. q\<lparr>front' := next f, size' := size' q - 1\<rparr>)
                                      (st2\<lparr>heap := h3\<rparr>))))))))"

definition pop_timed ::
  "nat \<Rightarrow> 'a \<Rightarrow> nat \<Rightarrow> 'a state \<Rightarrow> error + (bool \<times> 'a \<times> 'a state)" where
  "pop_timed this v timeout st =
     (case lock this st of
        Inl e \<Rightarrow> Inl e
      | Inr st1 \<Rightarrow>
          let success = cv_wait_for this timeout st1 in
          if \<not> success then Inr (False, v, unlock this st1)
          else
            (case heap st1 (front' (objs st1 this)) of
               None \<Rightarrow> Inl InvalidPointer
             | Some f \<Rightarrow>
                 let st2 = (if front' (objs st1 this) = rear' (objs st1 this)
                            then obj_update this (\<lambda>q. q\<lparr>rear' := 0\<rparr>) st1 else st1);
                     old = front' (objs st2 this)
                 in (case delete_node old ((heap st2)(old \<mapsto> f\<lparr>next := 0\<rparr>)) of
                       Inl e \<Rightarrow> Inl e
                     | Inr h3 \<Rightarrow>
                         Inr (True, data f,
                              unlock this
                                (obj_update this
                                   (\<lambda>q. q\<lparr>front' := next f, size' := size' q - 1\<rparr>)
                                   (st2\<lparr>heap := h3\<rparr>))))))"

definition try_peek :: "nat \<Rightarrow> 'a \<Rightarrow> 'a state \<Rightarrow> error + (bool \<times> 'a \<times> 'a state)" where
  "try_peek this v st =
     (case lock this st of
        Inl e \<Rightarrow> Inl e
      | Inr st1 \<Rightarrow>
          if empty_unsafe this st1 then Inr (False, v, unlock this st1)
          else
            (case heap st1 (front' (objs st1 this)) of
               None \<Rightarrow> Inl InvalidPointer
             | Some f \<Rightarrow> Inr (True, data f, unlock this st1)))"

text \<open>
  \<open>empty()\<close> and \<open>size()\<close>; the names \<open>empty\<close> and \<open>size\<close> are taken in HOL.
\<close>

definition empty_q :: "nat \<Rightarrow> 'a state \<Rightarrow> error + (bool \<times> 'a state)" where
  "empty_q this st =
     (case lock this st of
        Inl e \<Rightarrow> Inl e
      | Inr st1 \<Rightarrow> Inr (empty_unsafe this st1, unlock this st1))"

definition size_q :: "nat \<Rightarrow> 'a state \<Rightarrow> error + (64 word \<times> 'a state)" where
  "size_q this st =
     (case lock this st of
        Inl e \<Rightarrow> Inl e
      | Inr st1 \<Rightarrow> Inr (size' (objs st1 this), unlock this st1))"

subsection \<open>Construction, copy and move\<close>

text \<open>
  The default member initialisers, run by every constructor before its body: a null
  \<open>front_\<close>, \<open>rear_ = nullptr\<close>, \<open>size_ = 0\<close> and a fresh (unlocked) mutex.
\<close>

definition construct :: "nat \<Rightarrow> 'a state \<Rightarrow> 'a state" where
  "construct this st =
     st\<lparr>objs := (objs st)(this := \<lparr>front' = 0, rear' = 0, size' = 0, mutex' = False\<rparr>)\<rparr>"

text \<open>
  The loop of the copy constructor, \<open>while (current != nullptr)\<close>. Every round
  allocates a node, so the loop ends at the latest when memory is used up, whatever the
  chain it walks looks like.
\<close>

function copy_loop_push :: "nat \<Rightarrow> addr \<Rightarrow> 'a state \<Rightarrow> error + 'a state" where
  "copy_loop_push this current st =
     (if current = 0 then Inr st
      else case heap st current of
             None \<Rightarrow> Inl InvalidPointer
           | Some c \<Rightarrow>
               (case push this (data c) st of
                  Inl e \<Rightarrow> Inl e
                | Inr st1 \<Rightarrow>
                    (case heap st1 current of
                       None \<Rightarrow> Inl InvalidPointer
                     | Some c1 \<Rightarrow> copy_loop_push this (next c1) st1)))"
  by pat_completeness auto
termination
proof (relation "measure (\<lambda>(this, current, st).
                   if brk st = 0 then 0 else 2 ^ 64 - unat (brk st))")
  show "wf (measure (\<lambda>(this, current, st::'a state).
              if brk st = 0 then 0 else 2 ^ 64 - unat (brk st)))" by simp
next
  fix this :: nat and current :: addr and st st1 :: "'a state" and c c1 :: "'a Node"
  assume ok: "push this (data c) st = Inr st1"
  then have b: "brk st \<noteq> 0" and b1: "brk st1 = brk st + 1"
    by (auto simp: push_def push_unsafe_def make_unique_def lock_def unlock_def
          obj_update_def split: if_splits sum.splits option.splits)
  have lt: "unat (brk st) < 2 ^ 64"
    using unsigned_less [of "brk st", where ?'a = nat] by simp
  have "brk st + 1 \<noteq> 0 \<Longrightarrow> unat (brk st + 1) = unat (brk st) + 1"
    using unatSuc [of "brk st"] by (simp add: add.commute)
  with b b1 lt
  show "((this, next c1, st1), (this, current, st))
          \<in> measure (\<lambda>(this, current, st).
                if brk st = 0 then 0 else 2 ^ 64 - unat (brk st))"
    by auto
qed

declare copy_loop_push.simps [simp del]

definition copy_construct :: "nat \<Rightarrow> nat \<Rightarrow> 'a state \<Rightarrow> error + 'a state" where
  "copy_construct this other st =
     (case lock other (construct this st) of
        Inl e \<Rightarrow> Inl e
      | Inr st1 \<Rightarrow>
          (case copy_loop_push this (front' (objs st1 other)) st1 of
             Inl e \<Rightarrow> Inl e
           | Inr st2 \<Rightarrow> Inr (unlock other st2)))"

text \<open>
  \<open>front_ = std::move(other.front_)\<close>, the move assignment of \<open>std::unique_ptr\<close>:
  \<open>reset(other.front_.release())\<close>. The source pointer becomes null, the destination
  takes the pointer, and the node chain the destination owned before is deleted.
\<close>

definition move_front :: "nat \<Rightarrow> nat \<Rightarrow> 'a state \<Rightarrow> error + 'a state" where
  "move_front this other st =
     (let p = front' (objs st other);
          st1 = obj_update other (\<lambda>q. q\<lparr>front' := 0\<rparr>) st;
          old = front' (objs st1 this);
          st2 = obj_update this (\<lambda>q. q\<lparr>front' := p\<rparr>) st1
      in case delete_node old (heap st2) of
           Inl e \<Rightarrow> Inl e
         | Inr h \<Rightarrow> Inr (st2\<lparr>heap := h\<rparr>))"

definition move_construct :: "nat \<Rightarrow> nat \<Rightarrow> 'a state \<Rightarrow> error + 'a state" where
  "move_construct this other st =
     (case lock other (construct this st) of
        Inl e \<Rightarrow> Inl e
      | Inr st1 \<Rightarrow>
          (case move_front this other st1 of
             Inl e \<Rightarrow> Inl e
           | Inr st2 \<Rightarrow>
               let st3 = obj_update this (\<lambda>q. q\<lparr>rear' := rear' (objs st2 other)\<rparr>) st2;
                   st4 = obj_update this (\<lambda>q. q\<lparr>size' := size' (objs st3 other)\<rparr>) st3;
                   st5 = obj_update other (\<lambda>q. q\<lparr>rear' := 0\<rparr>) st4;
                   st6 = obj_update other (\<lambda>q. q\<lparr>size' := 0\<rparr>) st5
               in Inr (unlock other st6)))"

text \<open>The loop of the copy assignment, which inserts with \<open>push_unsafe\<close>.\<close>

function copy_loop_unsafe :: "nat \<Rightarrow> addr \<Rightarrow> 'a state \<Rightarrow> error + 'a state" where
  "copy_loop_unsafe this current st =
     (if current = 0 then Inr st
      else case heap st current of
             None \<Rightarrow> Inl InvalidPointer
           | Some c \<Rightarrow>
               (case push_unsafe this (data c) st of
                  Inl e \<Rightarrow> Inl e
                | Inr st1 \<Rightarrow>
                    (case heap st1 current of
                       None \<Rightarrow> Inl InvalidPointer
                     | Some c1 \<Rightarrow> copy_loop_unsafe this (next c1) st1)))"
  by pat_completeness auto
termination
proof (relation "measure (\<lambda>(this, current, st).
                   if brk st = 0 then 0 else 2 ^ 64 - unat (brk st))")
  show "wf (measure (\<lambda>(this, current, st::'a state).
              if brk st = 0 then 0 else 2 ^ 64 - unat (brk st)))" by simp
next
  fix this :: nat and current :: addr and st st1 :: "'a state" and c c1 :: "'a Node"
  assume ok: "push_unsafe this (data c) st = Inr st1"
  then have b: "brk st \<noteq> 0" and b1: "brk st1 = brk st + 1"
    by (auto simp: push_unsafe_def make_unique_def obj_update_def
          split: if_splits sum.splits option.splits)
  have lt: "unat (brk st) < 2 ^ 64"
    using unsigned_less [of "brk st", where ?'a = nat] by simp
  have "brk st + 1 \<noteq> 0 \<Longrightarrow> unat (brk st + 1) = unat (brk st) + 1"
    using unatSuc [of "brk st"] by (simp add: add.commute)
  with b b1 lt
  show "((this, next c1, st1), (this, current, st))
          \<in> measure (\<lambda>(this, current, st).
                if brk st = 0 then 0 else 2 ^ 64 - unat (brk st))"
    by auto
qed

declare copy_loop_unsafe.simps [simp del]

definition copy_assign :: "nat \<Rightarrow> nat \<Rightarrow> 'a state \<Rightarrow> error + 'a state" where
  "copy_assign this other st =
     (if this \<noteq> other then
        (case lock2 this other st of
           Inl e \<Rightarrow> Inl e
         | Inr st1 \<Rightarrow>
             let old = front' (objs st1 this);
                 st2 = obj_update this (\<lambda>q. q\<lparr>front' := 0\<rparr>) st1
             in (case delete_node old (heap st2) of
                   Inl e \<Rightarrow> Inl e
                 | Inr h \<Rightarrow>
                     let st3 = st2\<lparr>heap := h\<rparr>;
                         st4 = obj_update this (\<lambda>q. q\<lparr>rear' := 0\<rparr>) st3;
                         st5 = obj_update this (\<lambda>q. q\<lparr>size' := 0\<rparr>) st4
                     in (case copy_loop_unsafe this (front' (objs st5 other)) st5 of
                           Inl e \<Rightarrow> Inl e
                         | Inr st6 \<Rightarrow> Inr (unlock this (unlock other st6)))))
      else Inr st)"

definition move_assign :: "nat \<Rightarrow> nat \<Rightarrow> 'a state \<Rightarrow> error + 'a state" where
  "move_assign this other st =
     (if this \<noteq> other then
        (case lock2 this other st of
           Inl e \<Rightarrow> Inl e
         | Inr st1 \<Rightarrow>
             (case move_front this other st1 of
                Inl e \<Rightarrow> Inl e
              | Inr st2 \<Rightarrow>
                  let st3 = obj_update this (\<lambda>q. q\<lparr>rear' := rear' (objs st2 other)\<rparr>) st2;
                      st4 = obj_update this (\<lambda>q. q\<lparr>size' := size' (objs st3 other)\<rparr>) st3;
                      st5 = obj_update other (\<lambda>q. q\<lparr>rear' := 0\<rparr>) st4;
                      st6 = obj_update other (\<lambda>q. q\<lparr>size' := 0\<rparr>) st5
                  in Inr (unlock this (unlock other st6))))
      else Inr st)"

section \<open>What a queue holds\<close>

text \<open>
  The nodes reached from a pointer by following \<open>next\<close> up to \<open>nullptr\<close>, each with its
  address and its element; \<open>None\<close> when the walk meets a dangling pointer or a node a
  second time. A node is taken out of the heap once visited, so the walk always ends.
\<close>

function chain :: "'a heap \<Rightarrow> addr \<Rightarrow> (addr \<times> 'a) list option" where
  "chain h p =
     (if p = 0 then Some []
      else case h p of
             None \<Rightarrow> None
           | Some n \<Rightarrow>
               (case chain (h(p := None)) (next n) of
                  None \<Rightarrow> None
                | Some ns \<Rightarrow> Some ((p, data n) # ns)))"
  by pat_completeness auto
termination
proof (relation "measure (\<lambda>(h, p). card (dom h))")
  show "wf (measure (\<lambda>(h::'a heap, p). card (dom h)))" by simp
next
  fix h :: "'a heap" and p :: addr and n
  assume "p \<noteq> 0" "h p = Some n"
  then have "p \<in> dom h" by auto
  then have "card (dom h - {p}) < card (dom h)"
    by (intro card_Diff1_less) auto
  then show "((h(p := None), next n), (h, p)) \<in> measure (\<lambda>(h, p). card (dom h))"
    by simp
qed

declare chain.simps [simp del]

definition nodes :: "nat \<Rightarrow> 'a state \<Rightarrow> (addr \<times> 'a) list option" where
  "nodes this st = chain (heap st) (front' (objs st this))"

definition elements :: "nat \<Rightarrow> 'a state \<Rightarrow> 'a list option" where
  "elements this st = map_option (map snd) (nodes this st)"

text \<open>
  The invariant of the spec's data model, in its words: \<open>front\<close> is empty iff \<open>rear\<close>
  is empty iff \<open>size == 0\<close>; following the chain from \<open>front\<close> yields exactly \<open>size\<close>
  nodes and ends at the node referenced by \<open>rear\<close>.
\<close>

definition queue_inv :: "nat \<Rightarrow> 'a state \<Rightarrow> bool" where
  "queue_inv this st =
     (let q = objs st this in
      (front' q = 0 \<longleftrightarrow> rear' q = 0) \<and> (rear' q = 0 \<longleftrightarrow> size' q = 0) \<and>
      (case nodes this st of
         None \<Rightarrow> False
       | Some ns \<Rightarrow> length ns = unat (size' q) \<and> (ns \<noteq> [] \<longrightarrow> fst (last ns) = rear' q)))"

text \<open>
  The allocator's own invariant: every live node lies at a non-null address that has
  been handed out already.
\<close>

definition heap_ok :: "'a state \<Rightarrow> bool" where
  "heap_ok st = (\<forall>a. heap st a \<noteq> None \<longrightarrow> a \<noteq> 0 \<and> (brk st \<noteq> 0 \<longrightarrow> a < brk st))"

declare cv_wait.simps [code]

text \<open>
  The chain as a relation, for the proofs: \<open>cells h p ns\<close> says that the walk from \<open>p\<close>
  visits exactly the nodes \<open>ns\<close> and then reaches \<open>nullptr\<close>.
\<close>

primrec cells :: "'a heap \<Rightarrow> addr \<Rightarrow> (addr \<times> 'a) list \<Rightarrow> bool" where
  "cells h p [] \<longleftrightarrow> p = 0"
| "cells h p (x # xs) \<longleftrightarrow>
     p \<noteq> 0 \<and> p = fst x \<and>
     (case h p of None \<Rightarrow> False | Some n \<Rightarrow> data n = snd x \<and> cells h (next n) xs)"

text \<open>
  \<open>repr this st ns\<close>: the queue object \<open>this\<close> holds exactly the nodes \<open>ns\<close>, its
  \<open>rear_\<close> points to the last of them and its \<open>size_\<close> counts them.
\<close>

definition repr :: "nat \<Rightarrow> 'a state \<Rightarrow> (addr \<times> 'a) list \<Rightarrow> bool" where
  "repr this st ns \<longleftrightarrow>
     nodes this st = Some ns \<and>
     rear' (objs st this) = (if ns = [] then 0 else fst (last ns)) \<and>
     unat (size' (objs st this)) = length ns"

text \<open>
  Ownership: two queue objects share no node ("the queue exclusively owns every node").
\<close>

definition separate :: "nat \<Rightarrow> nat \<Rightarrow> 'a state \<Rightarrow> bool" where
  "separate this other st =
     (case (nodes this st, nodes other st) of
        (Some ns, Some ms) \<Rightarrow> list_all (\<lambda>a. a \<notin> set (map fst ms)) (map fst ns)
      | _ \<Rightarrow> False)"

text \<open>Memory for \<open>k\<close> more nodes.\<close>

definition can_alloc :: "nat \<Rightarrow> 'a state \<Rightarrow> bool" where
  "can_alloc k st = (k = 0 \<or> (brk st \<noteq> 0 \<and> unat (brk st) + k \<le> 2 ^ 64))"

text \<open>
  The state at program start: no live node, and every queue object as its default
  constructor leaves it.
\<close>

definition init_state :: "'a state" where
  "init_state =
     \<lparr>heap = Map.empty, brk = 1,
      objs = (\<lambda>_. \<lparr>front' = 0, rear' = 0, size' = 0, mutex' = False\<rparr>)\<rparr>"

text \<open>
  A state with two queues, for concrete runs: queue 0 holds 10, 20, 30 in the nodes at
  1, 2, 3 and queue 1 holds 40 in the node at 4.
\<close>

definition example_state :: "nat state" where
  "example_state =
     \<lparr>heap = [1 \<mapsto> \<lparr>data = 10, next = 2\<rparr>, 2 \<mapsto> \<lparr>data = 20, next = 3\<rparr>,
              3 \<mapsto> \<lparr>data = 30, next = 0\<rparr>, 4 \<mapsto> \<lparr>data = 40, next = 0\<rparr>],
      brk = 5,
      objs = (\<lambda>_. \<lparr>front' = 0, rear' = 0, size' = 0, mutex' = False\<rparr>)
               (0 := \<lparr>front' = 1, rear' = 3, size' = 3, mutex' = False\<rparr>,
                1 := \<lparr>front' = 4, rear' = 4, size' = 1, mutex' = False\<rparr>)\<rparr>"

subsection \<open>Intermediate and final states of copy and move\<close>

text \<open>
  The state \<open>front_ = std::move(other.front_)\<close> leaves when the destination owned the
  nodes at the addresses \<open>A\<close>: those nodes are gone, the destination has the source's
  pointer and the source's pointer is null.
\<close>

definition moved_front :: "nat \<Rightarrow> nat \<Rightarrow> addr set \<Rightarrow> 'a state \<Rightarrow> 'a state" where
  "moved_front this other A st =
     st\<lparr>heap := (\<lambda>a. if a \<in> A then None else heap st a),
        objs := (objs st)(other := (objs st other)\<lparr>front' := 0\<rparr>,
                          this := (objs st this)\<lparr>front' := front' (objs st other)\<rparr>)\<rparr>"

text \<open>
  The state of copy assignment when its loop starts: both mutexes held, the destination's
  nodes (at the addresses \<open>A\<close>) released and its members reset.
\<close>

definition cleared :: "nat \<Rightarrow> nat \<Rightarrow> addr set \<Rightarrow> 'a state \<Rightarrow> 'a state" where
  "cleared this other A st =
     st\<lparr>heap := (\<lambda>a. if a \<in> A then None else heap st a),
        objs := (objs st)(other := (objs st other)\<lparr>mutex' := True\<rparr>,
                          this := (objs st this)\<lparr>mutex' := True, front' := 0, rear' := 0, size' := 0\<rparr>)\<rparr>"

text \<open>
  The state of copy construction when its loop starts: the new object initialised, the
  source's mutex held.
\<close>

definition constructed :: "nat \<Rightarrow> nat \<Rightarrow> 'a state \<Rightarrow> 'a state" where
  "constructed this other st =
     st\<lparr>objs := (objs st)(this := \<lparr>front' = 0, rear' = 0, size' = 0, mutex' = False\<rparr>,
                          other := (objs st other)\<lparr>mutex' := True\<rparr>)\<rparr>"

text \<open>
  What the spec says of a move from \<open>other\<close> to \<open>this\<close>, taking the state \<open>st\<close> to
  \<open>st'\<close>: the destination holds exactly what the source held, and the source is in the
  valid empty state.
\<close>

definition moved :: "nat \<Rightarrow> nat \<Rightarrow> 'a state \<Rightarrow> 'a state \<Rightarrow> bool" where
  "moved this other st st' \<longleftrightarrow>
     elements this st' = elements other st \<and>
     size' (objs st' this) = size' (objs st other) \<and>
     front' (objs st' other) = 0 \<and> rear' (objs st' other) = 0 \<and>
     size' (objs st' other) = 0 \<and> elements other st' = Some [] \<and>
     queue_inv this st' \<and> queue_inv other st'"

text \<open>
  What the spec says of a copy from \<open>other\<close> to \<open>this\<close>: the destination holds a
  duplicate of the source's elements in the same order, the source is unchanged, and the
  two queues share no node.
\<close>

definition copied :: "nat \<Rightarrow> nat \<Rightarrow> 'a state \<Rightarrow> 'a state \<Rightarrow> bool" where
  "copied this other st st' \<longleftrightarrow>
     elements this st' = elements other st \<and>
     size' (objs st' this) = size' (objs st other) \<and>
     elements other st' = elements other st \<and>
     nodes other st' = nodes other st \<and>
     objs st' other = objs st other \<and>
     queue_inv this st' \<and> queue_inv other st' \<and> separate this other st'"

text \<open>
  Independence of two queues: a push or a removal on \<open>a\<close> changes neither the elements
  nor the size of \<open>b\<close>.
\<close>

definition unaffected :: "nat \<Rightarrow> 'a state \<Rightarrow> 'a state \<Rightarrow> bool" where
  "unaffected b st st2 \<longleftrightarrow>
     elements b st2 = elements b st \<and> size' (objs st2 b) = size' (objs st b)"

definition independent :: "nat \<Rightarrow> nat \<Rightarrow> 'a state \<Rightarrow> bool" where
  "independent a b st \<longleftrightarrow>
     (\<forall>v st2. push a v st = Inr st2 \<longrightarrow> unaffected b st st2) \<and>
     (\<forall>v r x st2. try_pop a v st = Inr (r, x, st2) \<longrightarrow> unaffected b st st2) \<and>
     (\<forall>v x st2. pop a v st = Some (Inr (x, st2)) \<longrightarrow> unaffected b st st2) \<and>
     (\<forall>v timeout r x st2. pop_timed a v timeout st = Inr (r, x, st2) \<longrightarrow> unaffected b st st2)"

subsection \<open>Sequences of calls\<close>

text \<open>One thread pushing the values of a list in order, each call after the other.\<close>

fun push_all :: "nat \<Rightarrow> 'a list \<Rightarrow> 'a state \<Rightarrow> error + 'a state" where
  "push_all this [] st = Inr st"
| "push_all this (v # vs) st =
     (case push this v st of
        Inl e \<Rightarrow> Inl e
      | Inr st1 \<Rightarrow> push_all this vs st1)"

text \<open>
  One thread removing through any of the three removal calls, each after the other,
  into the same variable. A call's result is \<open>Some x\<close> for the value \<open>x\<close> and \<open>None\<close> for
  "no value"; the whole sequence is \<open>None\<close> when a call fails or never returns.
\<close>

datatype removal = TryPop | Pop | PopTimed nat

fun remove1 ::
  "removal \<Rightarrow> nat \<Rightarrow> 'a \<Rightarrow> 'a state \<Rightarrow> (error + (bool \<times> 'a \<times> 'a state)) option" where
  "remove1 TryPop this v st = Some (try_pop this v st)"
| "remove1 Pop this v st =
     (case pop this v st of
        None \<Rightarrow> None
      | Some (Inl e) \<Rightarrow> Some (Inl e)
      | Some (Inr (x, st1)) \<Rightarrow> Some (Inr (True, x, st1)))"
| "remove1 (PopTimed timeout) this v st = Some (pop_timed this v timeout st)"

fun removals ::
  "nat \<Rightarrow> removal list \<Rightarrow> 'a \<Rightarrow> 'a state \<Rightarrow> ('a option list \<times> 'a state) option" where
  "removals this [] v st = Some ([], st)"
| "removals this (r # rs) v st =
     (case remove1 r this v st of
        Some (Inr (b, x, st1)) \<Rightarrow>
          (case removals this rs x st1 of
             None \<Rightarrow> None
           | Some (xs, st2) \<Rightarrow> Some ((if b then Some x else None) # xs, st2))
      | _ \<Rightarrow> None)"

section \<open>Auxiliary lemmas\<close>

subsection \<open>Chains\<close>

lemma cells_del:
  "cells (h(a := None)) p ns \<longleftrightarrow> cells h p ns \<and> a \<notin> fst ` set ns"
  by (induction ns arbitrary: p) (auto split: option.splits)

lemma cells_cong:
  "(\<And>a. a \<in> fst ` set ns \<Longrightarrow> h' a = h a) \<Longrightarrow> cells h' p ns = cells h p ns"
  by (induction ns arbitrary: p) (auto split: option.splits)

lemma chain_iff:
  "chain h p = Some ns \<longleftrightarrow> cells h p ns \<and> distinct (map fst ns)"
proof (induction ns arbitrary: h p)
  case Nil
  show ?case
    by (subst chain.simps) (auto split: option.splits)
next
  case (Cons x xs)
  show ?case
  proof (cases "p = 0")
    case True
    then show ?thesis by (subst chain.simps) simp
  next
    case nz: False
    show ?thesis
    proof (cases "h p")
      case None
      with nz show ?thesis by (subst chain.simps) simp
    next
      case (Some n)
      have IH: "chain (h(p := None)) (next n) = Some xs \<longleftrightarrow>
                cells h (next n) xs \<and> p \<notin> fst ` set xs \<and> distinct (map fst xs)"
        using Cons.IH [of "h(p := None)" "next n"] cells_del [of h p "next n" xs] by blast
      have "chain h p = Some (x # xs) \<longleftrightarrow>
            x = (p, data n) \<and> chain (h(p := None)) (next n) = Some xs"
        using nz Some by (subst chain.simps) (auto split: option.splits)
      also have "\<dots> \<longleftrightarrow> cells h p (x # xs) \<and> distinct (map fst (x # xs))"
        unfolding IH using nz Some by (cases x) auto
      finally show ?thesis .
    qed
  qed
qed

lemma cells_nonnull: "cells h p ns \<Longrightarrow> 0 \<notin> fst ` set ns"
  by (induction ns arbitrary: p) (auto split: option.splits)

lemma cells_dom: "cells h p ns \<Longrightarrow> a \<in> fst ` set ns \<Longrightarrow> h a \<noteq> None"
  by (induction ns arbitrary: p) (auto split: option.splits)

lemma cells_last:
  "cells h p ns \<Longrightarrow> ns \<noteq> [] \<Longrightarrow>
   \<exists>n. h (fst (last ns)) = Some n \<and> next n = 0 \<and> data n = snd (last ns)"
  by (induction ns arbitrary: p) (auto split: option.splits)

lemma cells_snoc:
  "cells h p ns \<Longrightarrow> ns \<noteq> [] \<Longrightarrow> distinct (map fst ns) \<Longrightarrow>
   h (fst (last ns)) = Some r \<Longrightarrow> b \<notin> fst ` set ns \<Longrightarrow> b \<noteq> 0 \<Longrightarrow>
   h' = h(fst (last ns) \<mapsto> r\<lparr>next := b\<rparr>, b \<mapsto> \<lparr>data = v, next = 0\<rparr>) \<Longrightarrow>
   cells h' p (ns @ [(b, v)])"
proof (induction ns arbitrary: p)
  case Nil
  then show ?case by simp
next
  case (Cons x xs)
  from Cons.prems obtain n where n: "h p = Some n" "data n = snd x"
    "cells h (next n) xs" "p = fst x" "p \<noteq> 0"
    by (auto split: option.splits)
  show ?case
  proof (cases "xs = []")
    case True
    with Cons.prems n have "h' p = Some (r\<lparr>next := b\<rparr>)" "r = n" "h' b = Some \<lparr>data = v, next = 0\<rparr>"
      by auto
    with True n Cons.prems show ?thesis by simp
  next
    case False
    with Cons.prems n have neq: "p \<noteq> fst (last xs)" "p \<noteq> b"
      by (auto simp: image_iff)
    from Cons.prems False have "cells h' (next n) (xs @ [(b, v)])"
      by (intro Cons.IH n) auto
    moreover have "h' p = Some n"
      using n neq False Cons.prems by simp
    ultimately show ?thesis using n by simp
  qed
qed

lemma delete_node_cells:
  "cells h p ns \<Longrightarrow> distinct (map fst ns) \<Longrightarrow>
   delete_node p h = Inr (\<lambda>a. if a \<in> fst ` set ns then None else h a)"
proof (induction ns arbitrary: h p)
  case Nil
  then show ?case by (subst delete_node.simps) simp
next
  case (Cons x xs)
  then obtain n where n: "h p = Some n" "p = fst x" "p \<noteq> 0" "cells h (next n) xs"
    by (auto split: option.splits)
  from Cons.prems n have c: "cells (h(p := None)) (next n) xs"
    unfolding cells_del by simp
  from Cons.prems have d: "distinct (map fst xs)" by simp
  note Cons.IH [OF c d]
  also have "(\<lambda>a. if a \<in> fst ` set xs then None else (h(p := None)) a) =
             (\<lambda>a. if a \<in> fst ` set (x # xs) then None else h a)"
    using n by (auto simp: fun_eq_iff)
  finally show ?case
    using n by (subst delete_node.simps) (simp add: fun_upd_def)
qed

subsection \<open>Insertion\<close>

lemma obj_update_simps [simp]:
  "heap (obj_update t f st) = heap st"
  "brk (obj_update t f st) = brk st"
  "objs (obj_update t f st) = (objs st)(t := f (objs st t))"
  by (simp_all add: obj_update_def)

lemma unlock_simps [simp]:
  "heap (unlock t st) = heap st"
  "brk (unlock t st) = brk st"
  "objs (unlock t st) = (objs st)(t := (objs st t)\<lparr>mutex' := False\<rparr>)"
  by (simp_all add: unlock_def)

lemma nodes_Some_iff:
  "nodes this st = Some ns \<longleftrightarrow>
     cells (heap st) (front' (objs st this)) ns \<and> distinct (map fst ns)"
  by (simp add: nodes_def chain_iff)

lemma nodes_cong:
  assumes "nodes t st = Some ns"
    and "front' (objs st' t) = front' (objs st t)"
    and "\<And>a. a \<in> fst ` set ns \<Longrightarrow> heap st' a = heap st a"
  shows "nodes t st' = Some ns"
  using assms cells_cong [of ns "heap st'" "heap st" "front' (objs st t)"]
  by (simp add: nodes_Some_iff)

lemma nodes_empty_iff:
  "nodes this st = Some ns \<Longrightarrow> ns = [] \<longleftrightarrow> front' (objs st this) = 0"
  by (cases ns) (auto simp: nodes_Some_iff)

lemma heap_ok_brk_free: "heap_ok st \<Longrightarrow> brk st \<noteq> 0 \<Longrightarrow> heap st (brk st) = None"
  by (auto simp: heap_ok_def)

lemma word_less_succ:
  fixes a b :: addr
  shows "a < b \<Longrightarrow> b + 1 \<noteq> 0 \<Longrightarrow> a < b + 1"
  using unatSuc [of b] by (simp add: word_less_nat_alt add.commute)

lemma word_self_less_succ:
  fixes b :: addr
  shows "b + 1 \<noteq> 0 \<Longrightarrow> b < b + 1"
  using unatSuc [of b] by (simp add: word_less_nat_alt add.commute)

lemma heap_ok_alloc:
  assumes "heap_ok st" "brk st \<noteq> 0"
    and "brk st' = brk st + 1"
    and "\<And>a. heap st' a \<noteq> None \<Longrightarrow> a = brk st \<or> heap st a \<noteq> None"
  shows "heap_ok st'"
  unfolding heap_ok_def
proof (intro allI impI)
  fix a assume "heap st' a \<noteq> None"
  then have "a = brk st \<or> heap st a \<noteq> None" by (rule assms(4))
  then have "a \<noteq> 0 \<and> (brk st + 1 \<noteq> 0 \<longrightarrow> a < brk st + 1)"
    using assms(1,2) word_less_succ [of a "brk st"] word_self_less_succ [of "brk st"]
    by (auto simp: heap_ok_def)
  then show "a \<noteq> 0 \<and> (brk st' \<noteq> 0 \<longrightarrow> a < brk st')"
    by (simp add: assms(3))
qed

lemma push_unsafe_effect:
  assumes ok: "heap_ok st" and ns: "nodes this st = Some ns"
    and rear: "ns \<noteq> [] \<Longrightarrow> rear' (objs st this) = fst (last ns)"
    and res: "push_unsafe this v st = Inr st'"
  shows "nodes this st' = Some (ns @ [(brk st, v)])"
    and "rear' (objs st' this) = brk st"
    and "size' (objs st' this) = size' (objs st this) + 1"
    and "mutex' (objs st' this) = mutex' (objs st this)"
    and "brk st \<noteq> 0" and "brk st' = brk st + 1"
    and "\<And>t. t \<noteq> this \<Longrightarrow> objs st' t = objs st t"
    and "heap_ok st'"
    and "\<And>a. a \<notin> fst ` set ns \<Longrightarrow> a \<noteq> brk st \<Longrightarrow> heap st' a = heap st a"
    and "brk st \<notin> fst ` set ns"
proof -
  let ?b = "brk st"
  let ?node = "\<lparr>data = v, next = 0\<rparr>"
  from res show b0: "?b \<noteq> 0"
    by (auto simp: push_unsafe_def make_unique_def split: if_splits)
  with ok have free: "heap st ?b = None" by (rule heap_ok_brk_free)
  from ns have c: "cells (heap st) (front' (objs st this)) ns" and d: "distinct (map fst ns)"
    by (simp_all add: nodes_Some_iff)
  from c free show fresh: "?b \<notin> fst ` set ns"
    using cells_dom [of "heap st" _ ns ?b] by auto
  have mk: "make_unique v st = Inr (?b, st\<lparr>heap := (heap st)(?b \<mapsto> ?node), brk := ?b + 1\<rparr>)"
    using b0 by (simp add: make_unique_def)
  let ?st1 = "st\<lparr>heap := (heap st)(?b \<mapsto> ?node), brk := ?b + 1\<rparr>"
  have all: "nodes this st' = Some (ns @ [(?b, v)]) \<and> rear' (objs st' this) = ?b \<and>
      size' (objs st' this) = size' (objs st this) + 1 \<and>
      mutex' (objs st' this) = mutex' (objs st this) \<and> brk st' = ?b + 1 \<and>
      (\<forall>t. t \<noteq> this \<longrightarrow> objs st' t = objs st t) \<and>
      (\<forall>a. heap st' a \<noteq> None \<longrightarrow> a = ?b \<or> heap st a \<noteq> None) \<and>
      (\<forall>a. a \<notin> fst ` set ns \<longrightarrow> a \<noteq> ?b \<longrightarrow> heap st' a = heap st a)"
  proof (cases "ns = []")
    case True
    have f0: "front' (objs st this) = 0" using nodes_empty_iff [OF ns] True by simp
    with res mk have st': "st' = obj_update this
        (\<lambda>q. q\<lparr>front' := ?b, rear' := ?b, size' := size' q + 1\<rparr>) ?st1"
      by (simp add: push_unsafe_def)
    have "nodes this st' = Some [(?b, v)]"
      using b0 by (simp add: nodes_Some_iff st')
    with True show ?thesis by (simp add: st')
  next
    case False
    have f0: "front' (objs st this) \<noteq> 0" using nodes_empty_iff [OF ns] False by simp
    let ?r = "rear' (objs st this)"
    from False rear have r: "?r = fst (last ns)" by simp
    from cells_last [OF c False] obtain n where
      n: "heap st ?r = Some n" "next n = 0" "data n = snd (last ns)"
      by (auto simp: r)
    from n free have rb: "?r \<noteq> ?b" by auto
    let ?h2 = "(heap st)(?b \<mapsto> ?node, ?r \<mapsto> n\<lparr>next := ?b\<rparr>)"
    have del: "delete_node 0 ?h2 = Inr ?h2" by (subst delete_node.simps) simp
    from res mk f0 n rb del have st': "st' = obj_update this
        (\<lambda>q. q\<lparr>rear' := ?b, size' := size' q + 1\<rparr>) (?st1\<lparr>heap := ?h2\<rparr>)"
      by (simp add: push_unsafe_def)
    have h2: "?h2 = (heap st)(fst (last ns) \<mapsto> n\<lparr>next := ?b\<rparr>, ?b \<mapsto> ?node)"
      using rb r by (auto simp: fun_eq_iff)
    have "cells ?h2 (front' (objs st this)) (ns @ [(?b, v)])"
      using c False d _ fresh b0 h2 by (rule cells_snoc) (use n r in simp)
    moreover have "distinct (map fst (ns @ [(?b, v)]))"
      using d fresh by (auto simp: image_iff)
    ultimately have "nodes this st' = Some (ns @ [(?b, v)])"
      by (simp add: nodes_Some_iff st')
    moreover have "\<forall>a. a \<notin> fst ` set ns \<longrightarrow> a \<noteq> ?b \<longrightarrow> heap st' a = heap st a"
      using False r by (auto simp: st')
    moreover have "\<forall>a. heap st' a \<noteq> None \<longrightarrow> a = ?b \<or> heap st a \<noteq> None"
      using n by (auto simp: st')
    ultimately show ?thesis by (simp add: st')
  qed
  then show "nodes this st' = Some (ns @ [(?b, v)])"
    and "rear' (objs st' this) = ?b"
    and "size' (objs st' this) = size' (objs st this) + 1"
    and "mutex' (objs st' this) = mutex' (objs st this)"
    and b1: "brk st' = ?b + 1"
    and "\<And>t. t \<noteq> this \<Longrightarrow> objs st' t = objs st t"
    and "\<And>a. a \<notin> fst ` set ns \<Longrightarrow> a \<noteq> ?b \<Longrightarrow> heap st' a = heap st a"
    by simp_all
  from all show "heap_ok st'"
    by (intro heap_ok_alloc [OF ok b0]) auto
qed

lemma push_unsafe_succeeds:
  assumes ok: "heap_ok st" and ns: "nodes this st = Some ns"
    and rear: "ns \<noteq> [] \<Longrightarrow> rear' (objs st this) = fst (last ns)"
    and b0: "brk st \<noteq> 0"
  shows "\<exists>st'. push_unsafe this v st = Inr st'"
proof -
  let ?b = "brk st"
  let ?node = "\<lparr>data = v, next = 0\<rparr>"
  from ok b0 have free: "heap st ?b = None" by (rule heap_ok_brk_free)
  from ns have c: "cells (heap st) (front' (objs st this)) ns"
    by (simp add: nodes_Some_iff)
  have mk: "make_unique v st = Inr (?b, st\<lparr>heap := (heap st)(?b \<mapsto> ?node), brk := ?b + 1\<rparr>)"
    using b0 by (simp add: make_unique_def)
  show ?thesis
  proof (cases "ns = []")
    case True
    have "front' (objs st this) = 0" using nodes_empty_iff [OF ns] True by simp
    with mk show ?thesis by (simp add: push_unsafe_def)
  next
    case False
    have f0: "front' (objs st this) \<noteq> 0" using nodes_empty_iff [OF ns] False by simp
    let ?r = "rear' (objs st this)"
    from False rear have r: "?r = fst (last ns)" by simp
    from cells_last [OF c False] obtain n where
      n: "heap st ?r = Some n" "next n = 0"
      by (auto simp: r)
    from n free have rb: "?r \<noteq> ?b" by auto
    let ?h2 = "(heap st)(?b \<mapsto> ?node, ?r \<mapsto> n\<lparr>next := ?b\<rparr>)"
    have del: "delete_node 0 ?h2 = Inr ?h2" by (subst delete_node.simps) simp
    from mk f0 n rb del show ?thesis
      by (simp add: push_unsafe_def)
  qed
qed

lemma addrs_length:
  fixes as :: "addr list"
  assumes "distinct as" "0 \<notin> set as"
  shows "length as < 2 ^ 64"
proof -
  have "set as \<subseteq> UNIV - {0}" using assms by auto
  then have "card (set as) \<le> card (UNIV - {0::addr})"
    by (intro card_mono) auto
  also have "\<dots> = 2 ^ 64 - 1"
    by (simp add: card_Diff_singleton card_word)
  finally show ?thesis
    using assms by (simp add: distinct_card)
qed

lemma nodes_length: "nodes this st = Some ns \<Longrightarrow> length ns < 2 ^ 64"
  using addrs_length [of "map fst ns"] cells_nonnull [of "heap st" _ ns]
  by (auto simp: nodes_Some_iff)

lemma queue_inv_iff: "queue_inv this st \<longleftrightarrow> (\<exists>ns. repr this st ns)"
proof
  assume "queue_inv this st"
  then obtain ns where ns: "nodes this st = Some ns"
    and a: "front' (objs st this) = 0 \<longleftrightarrow> rear' (objs st this) = 0"
    and l: "length ns = unat (size' (objs st this))"
    and r: "ns \<noteq> [] \<longrightarrow> fst (last ns) = rear' (objs st this)"
    by (auto simp: queue_inv_def Let_def split: option.splits)
  from nodes_empty_iff [OF ns] a r l have "repr this st ns"
    by (auto simp: repr_def ns)
  then show "\<exists>ns. repr this st ns" ..
next
  assume "\<exists>ns. repr this st ns"
  then obtain ns where ns: "nodes this st = Some ns"
    and r: "rear' (objs st this) = (if ns = [] then 0 else fst (last ns))"
    and l: "unat (size' (objs st this)) = length ns"
    by (auto simp: repr_def)
  from ns have nn: "0 \<notin> fst ` set ns"
    by (auto simp: nodes_Some_iff dest: cells_nonnull)
  have "ns \<noteq> [] \<Longrightarrow> fst (last ns) \<noteq> 0"
    using nn last_in_set [of ns] by (auto simp: image_iff)
  with r have r0: "rear' (objs st this) = 0 \<longleftrightarrow> ns = []" by auto
  have s0: "size' (objs st this) = 0 \<longleftrightarrow> ns = []"
    using l by (simp add: unat_eq_0 [symmetric])
  show "queue_inv this st"
    using nodes_empty_iff [OF ns] r0 s0 r l
    by (auto simp: queue_inv_def Let_def ns)
qed

lemma push_unsafe_repr:
  assumes ok: "heap_ok st" and rp: "repr this st ns"
    and res: "push_unsafe this v st = Inr st'"
  shows "repr this st' (ns @ [(brk st, v)])"
proof -
  from rp have ns: "nodes this st = Some ns"
    and rear: "ns \<noteq> [] \<Longrightarrow> rear' (objs st this) = fst (last ns)"
    and l: "unat (size' (objs st this)) = length ns"
    by (simp_all add: repr_def)
  note e = push_unsafe_effect [OF ok ns rear res]
  from nodes_length [OF e(1)] have "length ns + 1 < 2 ^ 64" by simp
  with l have "unat (size' (objs st this) + 1) = length ns + 1"
    by (simp add: unat_word_ariths)
  with e show ?thesis by (simp add: repr_def)
qed

lemma delete_single:
  "h a = Some n \<Longrightarrow> next n = 0 \<Longrightarrow> a \<noteq> 0 \<Longrightarrow> delete_node a h = Inr (h(a := None))"
  by (subst delete_node.simps, simp, subst delete_node.simps, simp)

lemma cv_wait_nonempty: "\<not> empty_unsafe this st \<Longrightarrow> cv_wait this st = Some st"
  by (subst cv_wait.simps) simp

lemma cv_wait_Some: "cv_wait this st = Some st' \<Longrightarrow> \<not> empty_unsafe this st"
  by (erule cv_wait.raw_induct [where P = "\<lambda>this st st'. \<not> empty_unsafe this st", rotated])
    (auto split: if_splits)

lemma cv_wait_empty: "empty_unsafe this st \<Longrightarrow> cv_wait this st = None"
  using cv_wait_Some [of this st] by (cases "cv_wait this st") auto

lemma pop_timed_eq: "pop_timed this v timeout st = try_pop this v st"
  by (auto simp: pop_timed_def try_pop_def cv_wait_for_def Let_def split: sum.splits)

lemma pop_eq:
  "pop this v st =
     (case lock this st of
        Inl e \<Rightarrow> Some (Inl e)
      | Inr st1 \<Rightarrow>
          if empty_unsafe this st1 then None
          else Some (case try_pop this v st of
                       Inl e \<Rightarrow> Inl e
                     | Inr (b, x, st') \<Rightarrow> Inr (x, st')))"
  by (auto simp: pop_def try_pop_def cv_wait_empty cv_wait_nonempty Let_def
        split: sum.splits option.splits)

subsection \<open>Removal\<close>

lemma mutex_False_triv: "\<not> mutex' q \<Longrightarrow> q\<lparr>mutex' := False\<rparr> = q"
  by (cases q) simp

lemma unlock_lock:
  "\<not> mutex' (objs st t) \<Longrightarrow> unlock t (obj_update t (\<lambda>q. q\<lparr>mutex' := True\<rparr>) st) = st"
  by (simp add: unlock_def obj_update_def mutex_False_triv)

lemma try_pop_empty:
  "\<not> mutex' (objs st this) \<Longrightarrow> front' (objs st this) = 0 \<Longrightarrow>
   try_pop this v st = Inr (False, v, st)"
  by (simp add: try_pop_def lock_def empty_unsafe_def unlock_lock)

lemma try_pop_effect:
  assumes ns: "nodes this st = Some ((a, x) # ns)"
    and rear: "rear' (objs st this) = fst (last ((a, x) # ns))"
    and mtx: "\<not> mutex' (objs st this)"
  shows "\<exists>st'. try_pop this v st = Inr (True, x, st') \<and> nodes this st' = Some ns \<and>
      rear' (objs st' this) = (if ns = [] then 0 else fst (last ns)) \<and>
      size' (objs st' this) = size' (objs st this) - 1 \<and>
      \<not> mutex' (objs st' this) \<and> brk st' = brk st \<and>
      (\<forall>t. t \<noteq> this \<longrightarrow> objs st' t = objs st t) \<and>
      heap st' = (heap st)(a := None)"
proof -
  from ns obtain f where fr: "front' (objs st this) = a" "a \<noteq> 0"
    and f: "heap st a = Some f" "data f = x"
    and c: "cells (heap st) (next f) ns"
    and d: "a \<notin> fst ` set ns" "distinct (map fst ns)"
    by (auto simp: nodes_Some_iff split: option.splits)
  have ra: "rear' (objs st this) = a \<longleftrightarrow> ns = []"
    using rear d by (auto simp: image_iff)
  let ?st1 = "obj_update this (\<lambda>q. q\<lparr>mutex' := True\<rparr>) st"
  let ?st2 = "if ns = [] then obj_update this (\<lambda>q. q\<lparr>rear' := 0\<rparr>) ?st1 else ?st1"
  let ?st' = "unlock this (obj_update this (\<lambda>q. q\<lparr>front' := next f, size' := size' q - 1\<rparr>)
                 (?st2\<lparr>heap := (heap st)(a := None)\<rparr>))"
  have del: "delete_node a ((heap st)(a \<mapsto> f\<lparr>next := 0\<rparr>)) = Inr ((heap st)(a := None))"
    using delete_single [of "(heap st)(a \<mapsto> f\<lparr>next := 0\<rparr>)" a "f\<lparr>next := 0\<rparr>"] fr by simp
  have ar: "a = rear' (objs st this) \<longleftrightarrow> ns = []"
    using ra by auto
  have "try_pop this v st = Inr (True, x, ?st')"
    using mtx fr f ar del
    by (simp add: try_pop_def lock_def empty_unsafe_def Let_def)
  moreover have "nodes this ?st' = Some ns"
    using c d by (simp add: nodes_Some_iff cells_del)
  ultimately show ?thesis
    using rear by (intro exI [of _ ?st']) simp
qed

lemma repr_frame:
  assumes "repr t st ms" and "objs st' t = objs st t"
    and "\<And>a. a \<in> fst ` set ms \<Longrightarrow> heap st' a = heap st a"
  shows "repr t st' ms"
  using assms nodes_cong [of t st ms st'] by (simp add: repr_def)

lemma try_pop_repr:
  assumes rp: "repr this st ((a, x) # ns)" and mtx: "\<not> mutex' (objs st this)"
  shows "\<exists>st'. try_pop this v st = Inr (True, x, st') \<and> repr this st' ns \<and>
      \<not> mutex' (objs st' this) \<and> brk st' = brk st \<and>
      (\<forall>t. t \<noteq> this \<longrightarrow> objs st' t = objs st t) \<and>
      heap st' = (heap st)(a := None)"
proof -
  from rp have ns: "nodes this st = Some ((a, x) # ns)"
    and rear: "rear' (objs st this) = fst (last ((a, x) # ns))"
    and l: "unat (size' (objs st this)) = Suc (length ns)"
    by (simp_all add: repr_def)
  from l have "size' (objs st this) \<noteq> 0" by auto
  then have "unat (size' (objs st this) - 1) = length ns"
    using l by (simp add: unat_minus_one)
  with try_pop_effect [OF ns rear mtx, of v] show ?thesis
    by (auto simp: repr_def)
qed

lemma try_pop_repr_empty:
  assumes rp: "repr this st []" and mtx: "\<not> mutex' (objs st this)"
  shows "try_pop this v st = Inr (False, v, st)"
  using assms nodes_empty_iff [of this st "[]"] by (simp add: repr_def try_pop_empty)

lemma heap_ok_free:
  "heap_ok st \<Longrightarrow> brk st' = brk st \<Longrightarrow> (\<And>a. heap st' a \<noteq> None \<Longrightarrow> heap st a \<noteq> None) \<Longrightarrow>
   heap_ok st'"
  unfolding heap_ok_def by auto

lemma push_effect:
  assumes ok: "heap_ok st" and rp: "repr this st ns"
    and res: "push this v st = Inr st'"
  shows "repr this st' (ns @ [(brk st, v)])"
    and "\<not> mutex' (objs st' this)"
    and "brk st \<noteq> 0" and "brk st' = brk st + 1"
    and "\<And>t. t \<noteq> this \<Longrightarrow> objs st' t = objs st t"
    and "heap_ok st'"
    and "\<And>a. a \<notin> fst ` set ns \<Longrightarrow> a \<noteq> brk st \<Longrightarrow> heap st' a = heap st a"
    and "brk st \<notin> fst ` set ns"
proof -
  let ?st1 = "obj_update this (\<lambda>q. q\<lparr>mutex' := True\<rparr>) st"
  from res obtain st2 where m: "\<not> mutex' (objs st this)"
    and pu: "push_unsafe this v ?st1 = Inr st2" and st': "st' = unlock this st2"
    by (auto simp: push_def lock_def split: if_splits sum.splits)
  have ok1: "heap_ok ?st1" using ok by (simp add: heap_ok_def)
  have rp1: "repr this ?st1 ns"
    using rp by (simp add: repr_def nodes_def)
  from rp1 have ns1: "nodes this ?st1 = Some ns"
    and rear1: "ns \<noteq> [] \<Longrightarrow> rear' (objs ?st1 this) = fst (last ns)"
    by (simp_all add: repr_def)
  note e = push_unsafe_effect [OF ok1 ns1 rear1 pu]
  from push_unsafe_repr [OF ok1 rp1 pu]
  show "repr this st' (ns @ [(brk st, v)])"
    by (simp add: repr_def st' nodes_def)
  show "\<not> mutex' (objs st' this)" by (simp add: st')
  from e(5) show "brk st \<noteq> 0" by simp
  from e(6) show "brk st' = brk st + 1" by (simp add: st')
  from e(8) show "heap_ok st'" by (simp add: st' heap_ok_def)
  from e(10) show "brk st \<notin> fst ` set ns" by simp
  show "\<And>t. t \<noteq> this \<Longrightarrow> objs st' t = objs st t"
    using e(7) by (simp add: st')
  show "\<And>a. a \<notin> fst ` set ns \<Longrightarrow> a \<noteq> brk st \<Longrightarrow> heap st' a = heap st a"
    using e(9) by (simp add: st')
qed

lemma push_succeeds:
  assumes ok: "heap_ok st" and rp: "repr this st ns"
    and m: "\<not> mutex' (objs st this)" and b0: "brk st \<noteq> 0"
  shows "\<exists>st'. push this v st = Inr st'"
proof -
  let ?st1 = "obj_update this (\<lambda>q. q\<lparr>mutex' := True\<rparr>) st"
  have ok1: "heap_ok ?st1" using ok by (simp add: heap_ok_def)
  have rp1: "repr this ?st1 ns"
    using rp by (simp add: repr_def nodes_def)
  from rp1 have ns1: "nodes this ?st1 = Some ns"
    and rear1: "ns \<noteq> [] \<Longrightarrow> rear' (objs ?st1 this) = fst (last ns)"
    by (simp_all add: repr_def)
  from push_unsafe_succeeds [OF ok1 ns1 rear1, of v] b0
  obtain st2 where "push_unsafe this v ?st1 = Inr st2" by auto
  with m show ?thesis by (simp add: push_def lock_def)
qed

subsection \<open>The three removal calls and peek\<close>

lemma pop_timed_empty:
  "\<not> mutex' (objs st this) \<Longrightarrow> front' (objs st this) = 0 \<Longrightarrow>
   pop_timed this v timeout st = Inr (False, v, st)"
  by (simp add: pop_timed_eq try_pop_empty)

lemma queue_inv_empty_size:
  "queue_inv this st \<Longrightarrow> front' (objs st this) = 0 \<Longrightarrow> size' (objs st this) = 0"
  by (auto simp: queue_inv_def Let_def)

lemma elements_repr: "repr this st ns \<Longrightarrow> elements this st = Some (map snd ns)"
  by (simp add: elements_def repr_def)

lemma repr_nonempty:
  "repr this st ns \<Longrightarrow> \<not> empty_unsafe this st \<Longrightarrow> \<exists>a x ms. ns = (a, x) # ms"
  using nodes_empty_iff [of this st ns]
  by (cases ns) (auto simp: repr_def empty_unsafe_def)

lemma pop_nonempty:
  "\<not> mutex' (objs st this) \<Longrightarrow> \<not> empty_unsafe this st \<Longrightarrow>
   try_pop this v st = Inr (b, x, st') \<Longrightarrow> pop this v st = Some (Inr (x, st'))"
  by (simp add: pop_eq lock_def empty_unsafe_def)

lemma try_peek_empty:
  "\<not> mutex' (objs st this) \<Longrightarrow> front' (objs st this) = 0 \<Longrightarrow>
   try_peek this v st = Inr (False, v, st)"
  by (simp add: try_peek_def lock_def empty_unsafe_def unlock_lock)

lemma try_peek_nonempty:
  "\<not> mutex' (objs st this) \<Longrightarrow> nodes this st = Some ((a, x) # ns) \<Longrightarrow>
   try_peek this v st = Inr (True, x, st)"
  by (auto simp: try_peek_def lock_def empty_unsafe_def unlock_lock nodes_Some_iff
        split: option.splits)

subsection \<open>The example state\<close>

lemma ex_nodes0: "nodes 0 example_state = Some [(1, 10), (2, 20), (3, 30)]"
  by (simp add: nodes_def chain.simps example_state_def)

lemma ex_nodes1: "nodes (Suc 0) example_state = Some [(4, 40)]"
  by (simp add: nodes_def chain.simps example_state_def)

lemma ex_inv0: "queue_inv 0 example_state"
  by (simp add: queue_inv_def ex_nodes0) (simp add: example_state_def)

lemma ex_inv1: "queue_inv 1 example_state"
  by (simp add: queue_inv_def ex_nodes1) (simp add: example_state_def)

lemma ex_heap_ok: "heap_ok example_state"
  by (simp add: heap_ok_def example_state_def)

lemma ex_sep: "separate 0 1 example_state"
  by (simp add: separate_def ex_nodes0 ex_nodes1)

subsection \<open>Sequences of pushes and removals\<close>

lemma push_all_repr:
  "heap_ok st \<Longrightarrow> repr this st ns \<Longrightarrow> \<not> mutex' (objs st this) \<Longrightarrow>
   push_all this vs st = Inr st1 \<Longrightarrow>
   \<exists>ms. repr this st1 (ns @ ms) \<and> map snd ms = vs \<and> heap_ok st1 \<and>
        \<not> mutex' (objs st1 this)"
proof (induction vs arbitrary: st ns)
  case Nil
  then show ?case by simp
next
  case (Cons v vs)
  from Cons.prems(4) obtain st' where p: "push this v st = Inr st'"
    and r: "push_all this vs st' = Inr st1"
    by (auto split: sum.splits)
  note e = push_effect [OF Cons.prems(1,2) p]
  from Cons.IH [OF e(6) e(1) e(2) r] obtain ms where
    "repr this st1 ((ns @ [(brk st, v)]) @ ms)" "map snd ms = vs" "heap_ok st1"
    "\<not> mutex' (objs st1 this)"
    by auto
  then show ?case
    by (intro exI [of _ "(brk st, v) # ms"]) simp
qed

lemma can_alloc_Suc:
  assumes "can_alloc (Suc k) st" and "brk st' = brk st + 1"
  shows "can_alloc k st'"
proof (cases k)
  case 0
  then show ?thesis by (simp add: can_alloc_def)
next
  case (Suc j)
  with assms(1) have b: "brk st \<noteq> 0" and le: "unat (brk st) + Suc (Suc j) \<le> 2 ^ 64"
    by (simp_all add: can_alloc_def)
  from le have "unat (brk st) + 1 < 2 ^ 64" by simp
  then have u: "unat (brk st + 1) = unat (brk st) + 1"
    by (simp add: unat_word_ariths)
  then have "brk st + 1 \<noteq> 0" by (metis Suc_eq_plus1 nat.distinct(1) unat_0)
  with u le Suc show ?thesis
    by (simp add: can_alloc_def assms(2))
qed

lemma push_all_succeeds:
  "heap_ok st \<Longrightarrow> repr this st ns \<Longrightarrow> \<not> mutex' (objs st this) \<Longrightarrow>
   can_alloc (length vs) st \<Longrightarrow> \<exists>st1. push_all this vs st = Inr st1"
proof (induction vs arbitrary: st ns)
  case Nil
  then show ?case by simp
next
  case (Cons v vs)
  from Cons.prems(4) have b: "brk st \<noteq> 0" by (simp add: can_alloc_def)
  from push_succeeds [OF Cons.prems(1,2,3) b, of v] obtain st' where
    p: "push this v st = Inr st'" by auto
  note e = push_effect [OF Cons.prems(1,2) p]
  from Cons.prems(4) have "can_alloc (Suc (length vs)) st" by simp
  then have "can_alloc (length vs) st'"
    using e(4) by (rule can_alloc_Suc)
  from Cons.IH [OF e(6) e(1) e(2) this] p show ?case by simp
qed

lemma remove1_repr:
  assumes rp: "repr this st ((a, x) # ns)" and mtx: "\<not> mutex' (objs st this)"
  shows "\<exists>st'. remove1 r this v st = Some (Inr (True, x, st')) \<and> repr this st' ns \<and>
      \<not> mutex' (objs st' this)"
proof -
  from try_pop_repr [OF rp mtx, of v] obtain st' where
    tp: "try_pop this v st = Inr (True, x, st')" and rp': "repr this st' ns"
    and m': "\<not> mutex' (objs st' this)"
    by auto
  have ne: "\<not> empty_unsafe this st"
    using rp nodes_empty_iff [of this st "(a, x) # ns"]
    by (simp add: repr_def empty_unsafe_def)
  have "remove1 r this v st = Some (Inr (True, x, st'))"
    using tp pop_nonempty [OF mtx ne tp] by (cases r) (simp_all add: pop_timed_eq)
  with rp' m' show ?thesis by auto
qed

lemma removals_repr:
  "repr this st ns \<Longrightarrow> \<not> mutex' (objs st this) \<Longrightarrow> length rs = length ns \<Longrightarrow>
   \<exists>st2. removals this rs v st = Some (map (\<lambda>n. Some (snd n)) ns, st2) \<and>
     repr this st2 [] \<and> \<not> mutex' (objs st2 this)"
proof (induction ns arbitrary: st rs v)
  case Nil
  then show ?case by simp
next
  case (Cons n ns)
  from Cons.prems(3) obtain r rs' where rs: "rs = r # rs'" "length rs' = length ns"
    by (cases rs) auto
  obtain a x where n: "n = (a, x)" by (cases n)
  from remove1_repr [OF Cons.prems(1) [unfolded n] Cons.prems(2), of r v] obtain st' where
    r1: "remove1 r this v st = Some (Inr (True, x, st'))" and rp': "repr this st' ns"
    and m': "\<not> mutex' (objs st' this)"
    by auto
  from Cons.IH [OF rp' m' rs(2), of x] obtain st2 where
    "removals this rs' x st' = Some (map (\<lambda>n. Some (snd n)) ns, st2)"
    "repr this st2 []" "\<not> mutex' (objs st2 this)"
    by auto
  with r1 show ?case by (simp add: rs n)
qed

subsection \<open>Copy and move\<close>

lemma separate_iff:
  "nodes this st = Some ns \<Longrightarrow> nodes other st = Some ms \<Longrightarrow>
   separate this other st \<longleftrightarrow> fst ` set ns \<inter> fst ` set ms = {}"
  by (auto simp: separate_def list_all_iff)

lemma separate_repr:
  "repr this st ns \<Longrightarrow> repr other st ms \<Longrightarrow>
   separate this other st \<longleftrightarrow> fst ` set ns \<inter> fst ` set ms = {}"
  by (simp add: repr_def separate_iff)

lemma moved_front_simps [simp]:
  "heap (moved_front this other A st) = (\<lambda>a. if a \<in> A then None else heap st a)"
  "brk (moved_front this other A st) = brk st"
  "objs (moved_front this other A st) =
     (objs st)(other := (objs st other)\<lparr>front' := 0\<rparr>,
               this := (objs st this)\<lparr>front' := front' (objs st other)\<rparr>)"
  by (simp_all add: moved_front_def)

lemma move_front_eq:
  assumes neq: "this \<noteq> other" and ns: "nodes this st = Some ns"
  shows "move_front this other st = Inr (moved_front this other (fst ` set ns) st)"
proof -
  from ns have c: "cells (heap st) (front' (objs st this)) ns" and d: "distinct (map fst ns)"
    by (simp_all add: nodes_Some_iff)
  show ?thesis
    using neq delete_node_cells [OF c d]
    by (simp add: move_front_def Let_def obj_update_def moved_front_def)
qed

lemma moved_front_nodes:
  assumes neq: "this \<noteq> other" and ms: "nodes other st = Some ms"
    and dj: "A \<inter> fst ` set ms = {}"
  shows "nodes this (moved_front this other A st) = Some ms"
    and "nodes other (moved_front this other A st) = Some []"
proof -
  from ms have cm: "cells (heap st) (front' (objs st other)) ms" and dm: "distinct (map fst ms)"
    by (simp_all add: nodes_Some_iff)
  have "cells (\<lambda>a. if a \<in> A then None else heap st a) (front' (objs st other)) ms
          = cells (heap st) (front' (objs st other)) ms"
    using dj by (intro cells_cong) auto
  with cm dm show "nodes this (moved_front this other A st) = Some ms"
    by (simp add: nodes_Some_iff)
  show "nodes other (moved_front this other A st) = Some []"
    using neq by (simp add: nodes_Some_iff)
qed

lemma repr_NilI:
  "front' (objs st t) = 0 \<Longrightarrow> rear' (objs st t) = 0 \<Longrightarrow> size' (objs st t) = 0 \<Longrightarrow>
   repr t st []"
  by (simp add: repr_def nodes_Some_iff)

lemma repr_objs_cong:
  assumes "repr t st ns"
    and "front' (objs st' t) = front' (objs st t)"
    and "rear' (objs st' t) = rear' (objs st t)"
    and "size' (objs st' t) = size' (objs st t)"
    and "\<And>a. a \<in> fst ` set ns \<Longrightarrow> heap st' a = heap st a"
  shows "repr t st' ns"
  using assms nodes_cong [of t st ns st'] by (simp add: repr_def)

lemma lock2_Inr:
  "this \<noteq> other \<Longrightarrow> \<not> mutex' (objs st this) \<Longrightarrow> \<not> mutex' (objs st other) \<Longrightarrow>
   lock2 this other st =
     Inr (obj_update other (\<lambda>q. q\<lparr>mutex' := True\<rparr>)
            (obj_update this (\<lambda>q. q\<lparr>mutex' := True\<rparr>) st))"
  by (simp add: lock2_def lock_def)

lemma move_assign_effect:
  assumes neq: "this \<noteq> other"
    and rt: "repr this st ns" and ro: "repr other st ms"
    and dj: "fst ` set ns \<inter> fst ` set ms = {}"
    and mt: "\<not> mutex' (objs st this)" and mo: "\<not> mutex' (objs st other)"
  shows "\<exists>st'. move_assign this other st = Inr st' \<and> repr this st' ms \<and> repr other st' [] \<and>
      front' (objs st' other) = 0 \<and> rear' (objs st' other) = 0 \<and> size' (objs st' other) = 0 \<and>
      size' (objs st' this) = size' (objs st other) \<and>
      \<not> mutex' (objs st' this) \<and> \<not> mutex' (objs st' other) \<and>
      brk st' = brk st \<and>
      heap st' = (\<lambda>a. if a \<in> fst ` set ns then None else heap st a) \<and>
      (\<forall>t. t \<noteq> this \<longrightarrow> t \<noteq> other \<longrightarrow> objs st' t = objs st t)"
proof -
  define st1 where "st1 = obj_update other (\<lambda>q. q\<lparr>mutex' := True\<rparr>)
                (obj_update this (\<lambda>q. q\<lparr>mutex' := True\<rparr>) st)"
  have l: "lock2 this other st = Inr st1"
    unfolding st1_def using neq mt mo by (rule lock2_Inr)
  have s1: "heap st1 = heap st" "brk st1 = brk st"
    "objs st1 this = (objs st this)\<lparr>mutex' := True\<rparr>"
    "objs st1 other = (objs st other)\<lparr>mutex' := True\<rparr>"
    "\<And>t. t \<noteq> this \<Longrightarrow> t \<noteq> other \<Longrightarrow> objs st1 t = objs st t"
    using neq by (simp_all add: st1_def)
  from rt ro have ns1: "nodes this st1 = Some ns" and ms1: "nodes other st1 = Some ms"
    by (simp_all add: repr_def nodes_def s1)
  define st2 where "st2 = moved_front this other (fst ` set ns) st1"
  have mf: "move_front this other st1 = Inr st2"
    unfolding st2_def using neq ns1 by (rule move_front_eq)
  have n2: "nodes this st2 = Some ms"
    unfolding st2_def using neq ms1 dj by (rule moved_front_nodes)
  have s2: "heap st2 = (\<lambda>a. if a \<in> fst ` set ns then None else heap st a)" "brk st2 = brk st"
    "objs st2 this = (objs st this)\<lparr>mutex' := True, front' := front' (objs st other)\<rparr>"
    "objs st2 other = (objs st other)\<lparr>mutex' := True, front' := 0\<rparr>"
    "\<And>t. t \<noteq> this \<Longrightarrow> t \<noteq> other \<Longrightarrow> objs st2 t = objs st t"
    using neq by (simp_all add: st2_def s1 cong: if_cong)
  define st' where "st' = unlock this (unlock other
     (obj_update other (\<lambda>q. q\<lparr>size' := 0\<rparr>)
       (obj_update other (\<lambda>q. q\<lparr>rear' := 0\<rparr>)
         (obj_update this (\<lambda>q. q\<lparr>size' := size' (objs st2 other)\<rparr>)
           (obj_update this (\<lambda>q. q\<lparr>rear' := rear' (objs st2 other)\<rparr>) st2)))))"
  have ma: "move_assign this other st = Inr st'"
    using neq l mf by (simp add: move_assign_def Let_def st'_def)
  have s': "heap st' = heap st2" "brk st' = brk st2"
    "objs st' this = (objs st2 this)\<lparr>rear' := rear' (objs st2 other),
        size' := size' (objs st2 other), mutex' := False\<rparr>"
    "objs st' other = (objs st2 other)\<lparr>rear' := 0, size' := 0, mutex' := False\<rparr>"
    "\<And>t. t \<noteq> this \<Longrightarrow> t \<noteq> other \<Longrightarrow> objs st' t = objs st2 t"
    using neq by (simp_all add: st'_def)
  from ro have ro': "rear' (objs st other) = (if ms = [] then 0 else fst (last ms))"
    "unat (size' (objs st other)) = length ms"
    by (simp_all add: repr_def)
  have "nodes this st' = Some ms"
    using n2 by (simp add: nodes_def s' s2)
  then have "repr this st' ms"
    using ro' by (simp add: repr_def s' s2)
  moreover have "repr other st' []"
    by (rule repr_NilI) (simp_all add: s' s2)
  ultimately show ?thesis
    using ma by (intro exI [of _ st']) (simp add: s' s2)
qed

lemma construct_simps [simp]:
  "heap (construct t st) = heap st"
  "brk (construct t st) = brk st"
  "objs (construct t st) = (objs st)(t := \<lparr>front' = 0, rear' = 0, size' = 0, mutex' = False\<rparr>)"
  by (simp_all add: construct_def)

lemma move_construct_effect:
  assumes neq: "this \<noteq> other"
    and ro: "repr other st ms" and mo: "\<not> mutex' (objs st other)"
  shows "\<exists>st'. move_construct this other st = Inr st' \<and> repr this st' ms \<and> repr other st' [] \<and>
      front' (objs st' other) = 0 \<and> rear' (objs st' other) = 0 \<and> size' (objs st' other) = 0 \<and>
      size' (objs st' this) = size' (objs st other) \<and>
      \<not> mutex' (objs st' this) \<and> \<not> mutex' (objs st' other) \<and>
      brk st' = brk st \<and> heap st' = heap st \<and>
      (\<forall>t. t \<noteq> this \<longrightarrow> t \<noteq> other \<longrightarrow> objs st' t = objs st t)"
proof -
  define st1 where "st1 = obj_update other (\<lambda>q. q\<lparr>mutex' := True\<rparr>) (construct this st)"
  have l: "lock other (construct this st) = Inr st1"
    using neq mo by (simp add: lock_def st1_def)
  have s1: "heap st1 = heap st" "brk st1 = brk st"
    "objs st1 this = \<lparr>front' = 0, rear' = 0, size' = 0, mutex' = False\<rparr>"
    "objs st1 other = (objs st other)\<lparr>mutex' := True\<rparr>"
    "\<And>t. t \<noteq> this \<Longrightarrow> t \<noteq> other \<Longrightarrow> objs st1 t = objs st t"
    using neq by (simp_all add: st1_def)
  have ns1: "nodes this st1 = Some []"
    by (simp add: nodes_Some_iff s1)
  from ro have ms1: "nodes other st1 = Some ms"
    by (simp add: repr_def nodes_def s1)
  define st2 where "st2 = moved_front this other {} st1"
  have mf: "move_front this other st1 = Inr st2"
    unfolding st2_def using move_front_eq [OF neq ns1] by simp
  have n2: "nodes this st2 = Some ms"
    unfolding st2_def using neq ms1 by (rule moved_front_nodes) simp
  have s2: "heap st2 = heap st" "brk st2 = brk st"
    "objs st2 this = \<lparr>front' = front' (objs st other), rear' = 0, size' = 0, mutex' = False\<rparr>"
    "objs st2 other = (objs st other)\<lparr>mutex' := True, front' := 0\<rparr>"
    "\<And>t. t \<noteq> this \<Longrightarrow> t \<noteq> other \<Longrightarrow> objs st2 t = objs st t"
    using neq by (simp_all add: st2_def s1)
  define st' where "st' = unlock other
     (obj_update other (\<lambda>q. q\<lparr>size' := 0\<rparr>)
       (obj_update other (\<lambda>q. q\<lparr>rear' := 0\<rparr>)
         (obj_update this (\<lambda>q. q\<lparr>size' := size' (objs st2 other)\<rparr>)
           (obj_update this (\<lambda>q. q\<lparr>rear' := rear' (objs st2 other)\<rparr>) st2))))"
  have ma: "move_construct this other st = Inr st'"
    using l mf by (simp add: move_construct_def Let_def st'_def)
  have s': "heap st' = heap st2" "brk st' = brk st2"
    "objs st' this = (objs st2 this)\<lparr>rear' := rear' (objs st2 other),
        size' := size' (objs st2 other)\<rparr>"
    "objs st' other = (objs st2 other)\<lparr>rear' := 0, size' := 0, mutex' := False\<rparr>"
    "\<And>t. t \<noteq> this \<Longrightarrow> t \<noteq> other \<Longrightarrow> objs st' t = objs st2 t"
    using neq by (simp_all add: st'_def)
  from ro have ro': "rear' (objs st other) = (if ms = [] then 0 else fst (last ms))"
    "unat (size' (objs st other)) = length ms"
    by (simp_all add: repr_def)
  have "nodes this st' = Some ms"
    using n2 by (simp add: nodes_def s' s2)
  then have "repr this st' ms"
    using ro' by (simp add: repr_def s' s2)
  moreover have "repr other st' []"
    by (rule repr_NilI) (simp_all add: s' s2)
  ultimately show ?thesis
    using ma by (intro exI [of _ st']) (simp add: s' s2)
qed

lemma heap_ok_live: "heap_ok st \<Longrightarrow> brk st \<noteq> 0 \<Longrightarrow> heap st a \<noteq> None \<Longrightarrow> a \<noteq> brk st"
  by (auto simp: heap_ok_def)

lemma copy_loop_unsafe_effect:
  "heap_ok st \<Longrightarrow> repr this st ns \<Longrightarrow> cells (heap st) cur ms \<Longrightarrow>
   fst ` set ns \<inter> fst ` set ms = {} \<Longrightarrow>
   copy_loop_unsafe this cur st = Inr st' \<Longrightarrow>
   \<exists>ks. repr this st' (ns @ ks) \<and> map snd ks = map snd ms \<and> heap_ok st' \<and>
     (\<forall>t. t \<noteq> this \<longrightarrow> objs st' t = objs st t) \<and>
     mutex' (objs st' this) = mutex' (objs st this) \<and>
     (\<forall>a. heap st a \<noteq> None \<longrightarrow> a \<notin> fst ` set ns \<longrightarrow> heap st' a = heap st a) \<and>
     (\<forall>a \<in> fst ` set ks. heap st a = None)"
proof (induction ms arbitrary: st ns cur)
  case Nil
  then have "st' = st" by (simp add: copy_loop_unsafe.simps)
  with Nil show ?case by (intro exI [of _ "[]"]) simp
next
  case (Cons m ms)
  obtain c x where m: "m = (c, x)" by (cases m)
  from Cons.prems(3) obtain n where c: "cur = c" "c \<noteq> 0" "heap st c = Some n" "data n = x"
    and cm: "cells (heap st) (next n) ms"
    by (auto simp: m split: option.splits)
  from Cons.prems(4) have cns: "c \<notin> fst ` set ns" by (auto simp: m)
  from Cons.prems(5) c obtain st1 where
    pu: "push_unsafe this x st = Inr st1"
    by (subst (asm) copy_loop_unsafe.simps) (auto split: sum.splits)
  from Cons.prems(2) have ns: "nodes this st = Some ns"
    and rear: "ns \<noteq> [] \<Longrightarrow> rear' (objs st this) = fst (last ns)"
    by (simp_all add: repr_def)
  note e = push_unsafe_effect [OF Cons.prems(1) ns rear pu]
  note rp1 = push_unsafe_repr [OF Cons.prems(1,2) pu]
  have live: "\<And>a. heap st a \<noteq> None \<Longrightarrow> a \<noteq> brk st"
    using heap_ok_live [OF Cons.prems(1) e(5)] by blast
  have fr: "\<And>a. heap st a \<noteq> None \<Longrightarrow> a \<notin> fst ` set ns \<Longrightarrow> heap st1 a = heap st a"
    using e(9) live by blast
  have c1: "heap st1 c = Some n" using fr [of c] c cns by simp
  with Cons.prems(5) c pu have rec: "copy_loop_unsafe this (next n) st1 = Inr st'"
    by (subst (asm) copy_loop_unsafe.simps) simp
  have mslive: "\<And>a. a \<in> fst ` set ms \<Longrightarrow> heap st a \<noteq> None"
    using cells_dom [OF cm] by blast
  have msns: "\<And>a. a \<in> fst ` set ms \<Longrightarrow> a \<notin> fst ` set ns"
    using Cons.prems(4) by (auto simp: m)
  have cm1: "cells (heap st1) (next n) ms"
    using cm cells_cong [of ms "heap st1" "heap st" "next n"] fr mslive msns by auto
  have "brk st \<notin> fst ` set ms"
    using mslive live by blast
  then have dj1: "fst ` set (ns @ [(brk st, x)]) \<inter> fst ` set ms = {}"
    using msns by auto
  from Cons.IH [OF e(8) rp1 cm1 dj1 rec] obtain ks where
    ks: "repr this st' ((ns @ [(brk st, x)]) @ ks)" "map snd ks = map snd ms" "heap_ok st'"
    "\<forall>t. t \<noteq> this \<longrightarrow> objs st' t = objs st1 t"
    "mutex' (objs st' this) = mutex' (objs st1 this)"
    "\<forall>a. heap st1 a \<noteq> None \<longrightarrow> a \<notin> fst ` set (ns @ [(brk st, x)]) \<longrightarrow> heap st' a = heap st1 a"
    "\<forall>a \<in> fst ` set ks. heap st1 a = None"
    by blast
  from ks(1) have dist: "distinct (map fst (ns @ (brk st, x) # ks))"
    by (simp add: repr_def nodes_Some_iff)
  have dead: "\<forall>a \<in> fst ` set ((brk st, x) # ks). heap st a = None"
  proof
    fix a assume a: "a \<in> fst ` set ((brk st, x) # ks)"
    show "heap st a = None"
    proof (cases "a = brk st")
      case True
      then show ?thesis using heap_ok_brk_free [OF Cons.prems(1) e(5)] by simp
    next
      case False
      with a have ak: "a \<in> fst ` set ks" by auto
      from ks(7) ak have "heap st1 a = None" by (rule bspec)
      moreover from dist ak have "a \<notin> fst ` set ns" by auto
      ultimately show ?thesis using fr [of a] by auto
    qed
  qed
  have frame: "\<forall>a. heap st a \<noteq> None \<longrightarrow> a \<notin> fst ` set ns \<longrightarrow> heap st' a = heap st a"
  proof (intro allI impI)
    fix a assume a: "heap st a \<noteq> None" "a \<notin> fst ` set ns"
    then have "heap st1 a = heap st a" by (rule fr)
    moreover have "a \<notin> fst ` set (ns @ [(brk st, x)])" using a live by auto
    ultimately show "heap st' a = heap st a" using ks(6) a by auto
  qed
  show ?case
    using ks(1,2,3,4,5) e(4,7) dead frame
    by (intro exI [of _ "(brk st, x) # ks"]) (simp add: m c)
qed

lemma copy_loop_unsafe_succeeds:
  "heap_ok st \<Longrightarrow> repr this st ns \<Longrightarrow> cells (heap st) cur ms \<Longrightarrow>
   fst ` set ns \<inter> fst ` set ms = {} \<Longrightarrow> can_alloc (length ms) st \<Longrightarrow>
   \<exists>st'. copy_loop_unsafe this cur st = Inr st'"
proof (induction ms arbitrary: st ns cur)
  case Nil
  then show ?case by (simp add: copy_loop_unsafe.simps)
next
  case (Cons m ms)
  obtain c x where m: "m = (c, x)" by (cases m)
  from Cons.prems(3) obtain n where c: "cur = c" "c \<noteq> 0" "heap st c = Some n" "data n = x"
    and cm: "cells (heap st) (next n) ms"
    by (auto simp: m split: option.splits)
  from Cons.prems(4) have cns: "c \<notin> fst ` set ns" by (auto simp: m)
  from Cons.prems(2) have ns: "nodes this st = Some ns"
    and rear: "ns \<noteq> [] \<Longrightarrow> rear' (objs st this) = fst (last ns)"
    by (simp_all add: repr_def)
  from Cons.prems(5) have b: "brk st \<noteq> 0" by (simp add: can_alloc_def)
  from push_unsafe_succeeds [OF Cons.prems(1) ns rear b, of x] obtain st1 where
    pu: "push_unsafe this x st = Inr st1" by blast
  note e = push_unsafe_effect [OF Cons.prems(1) ns rear pu]
  note rp1 = push_unsafe_repr [OF Cons.prems(1,2) pu]
  have live: "\<And>a. heap st a \<noteq> None \<Longrightarrow> a \<noteq> brk st"
    using heap_ok_live [OF Cons.prems(1) e(5)] by blast
  have fr: "\<And>a. heap st a \<noteq> None \<Longrightarrow> a \<notin> fst ` set ns \<Longrightarrow> heap st1 a = heap st a"
    using e(9) live by blast
  have c1: "heap st1 c = Some n" using fr [of c] c cns by simp
  have mslive: "\<And>a. a \<in> fst ` set ms \<Longrightarrow> heap st a \<noteq> None"
    using cells_dom [OF cm] by blast
  have msns: "\<And>a. a \<in> fst ` set ms \<Longrightarrow> a \<notin> fst ` set ns"
    using Cons.prems(4) by (auto simp: m)
  have cm1: "cells (heap st1) (next n) ms"
    using cm cells_cong [of ms "heap st1" "heap st" "next n"] fr mslive msns by auto
  have "brk st \<notin> fst ` set ms"
    using mslive live by blast
  then have dj1: "fst ` set (ns @ [(brk st, x)]) \<inter> fst ` set ms = {}"
    using msns by auto
  from Cons.prems(5) have "can_alloc (Suc (length ms)) st" by simp
  then have ca: "can_alloc (length ms) st1" using e(6) by (rule can_alloc_Suc)
  from Cons.IH [OF e(8) rp1 cm1 dj1 ca] obtain st' where
    "copy_loop_unsafe this (next n) st1 = Inr st'" by blast
  with c pu c1 show ?case
    by (subst copy_loop_unsafe.simps) simp
qed

lemma copy_loop_push_effect:
  "heap_ok st \<Longrightarrow> repr this st ns \<Longrightarrow> cells (heap st) cur ms \<Longrightarrow>
   fst ` set ns \<inter> fst ` set ms = {} \<Longrightarrow>
   copy_loop_push this cur st = Inr st' \<Longrightarrow> \<not> mutex' (objs st this) \<Longrightarrow>
   \<exists>ks. repr this st' (ns @ ks) \<and> map snd ks = map snd ms \<and> heap_ok st' \<and>
     (\<forall>t. t \<noteq> this \<longrightarrow> objs st' t = objs st t) \<and>
     \<not> mutex' (objs st' this) \<and>
     (\<forall>a. heap st a \<noteq> None \<longrightarrow> a \<notin> fst ` set ns \<longrightarrow> heap st' a = heap st a) \<and>
     (\<forall>a \<in> fst ` set ks. heap st a = None)"
proof (induction ms arbitrary: st ns cur)
  case Nil
  then have "st' = st" by (simp add: copy_loop_push.simps)
  with Nil show ?case by (intro exI [of _ "[]"]) simp
next
  case (Cons m ms)
  obtain c x where m: "m = (c, x)" by (cases m)
  from Cons.prems(3) obtain n where c: "cur = c" "c \<noteq> 0" "heap st c = Some n" "data n = x"
    and cm: "cells (heap st) (next n) ms"
    by (auto simp: m split: option.splits)
  from Cons.prems(4) have cns: "c \<notin> fst ` set ns" by (auto simp: m)
  from Cons.prems(5) c obtain st1 where
    pu: "push this x st = Inr st1"
    by (subst (asm) copy_loop_push.simps) (auto split: sum.splits)
  note e = push_effect [OF Cons.prems(1,2) pu]
  have live: "\<And>a. heap st a \<noteq> None \<Longrightarrow> a \<noteq> brk st"
    using heap_ok_live [OF Cons.prems(1) e(3)] by blast
  have fr: "\<And>a. heap st a \<noteq> None \<Longrightarrow> a \<notin> fst ` set ns \<Longrightarrow> heap st1 a = heap st a"
    using e(7) live by blast
  have c1: "heap st1 c = Some n" using fr [of c] c cns by simp
  with Cons.prems(5) c pu have rec: "copy_loop_push this (next n) st1 = Inr st'"
    by (subst (asm) copy_loop_push.simps) simp
  have mslive: "\<And>a. a \<in> fst ` set ms \<Longrightarrow> heap st a \<noteq> None"
    using cells_dom [OF cm] by blast
  have msns: "\<And>a. a \<in> fst ` set ms \<Longrightarrow> a \<notin> fst ` set ns"
    using Cons.prems(4) by (auto simp: m)
  have cm1: "cells (heap st1) (next n) ms"
    using cm cells_cong [of ms "heap st1" "heap st" "next n"] fr mslive msns by auto
  have "brk st \<notin> fst ` set ms"
    using mslive live by blast
  then have dj1: "fst ` set (ns @ [(brk st, x)]) \<inter> fst ` set ms = {}"
    using msns by auto
  from Cons.IH [OF e(6) e(1) cm1 dj1 rec e(2)] obtain ks where
    ks: "repr this st' ((ns @ [(brk st, x)]) @ ks)" "map snd ks = map snd ms" "heap_ok st'"
    "\<forall>t. t \<noteq> this \<longrightarrow> objs st' t = objs st1 t"
    "\<not> mutex' (objs st' this)"
    "\<forall>a. heap st1 a \<noteq> None \<longrightarrow> a \<notin> fst ` set (ns @ [(brk st, x)]) \<longrightarrow> heap st' a = heap st1 a"
    "\<forall>a \<in> fst ` set ks. heap st1 a = None"
    by blast
  from ks(1) have dist: "distinct (map fst (ns @ (brk st, x) # ks))"
    by (simp add: repr_def nodes_Some_iff)
  have dead: "\<forall>a \<in> fst ` set ((brk st, x) # ks). heap st a = None"
  proof
    fix a assume a: "a \<in> fst ` set ((brk st, x) # ks)"
    show "heap st a = None"
    proof (cases "a = brk st")
      case True
      then show ?thesis using heap_ok_brk_free [OF Cons.prems(1) e(3)] by simp
    next
      case False
      with a have ak: "a \<in> fst ` set ks" by auto
      from ks(7) ak have "heap st1 a = None" by (rule bspec)
      moreover from dist ak have "a \<notin> fst ` set ns" by auto
      ultimately show ?thesis using fr [of a] by auto
    qed
  qed
  have frame: "\<forall>a. heap st a \<noteq> None \<longrightarrow> a \<notin> fst ` set ns \<longrightarrow> heap st' a = heap st a"
  proof (intro allI impI)
    fix a assume a: "heap st a \<noteq> None" "a \<notin> fst ` set ns"
    then have "heap st1 a = heap st a" by (rule fr)
    moreover have "a \<notin> fst ` set (ns @ [(brk st, x)])" using a live by auto
    ultimately show "heap st' a = heap st a" using ks(6) a by auto
  qed
  show ?case
    using ks(1,2,3,4,5) e(5) dead frame
    by (intro exI [of _ "(brk st, x) # ks"]) (simp add: m c)
qed

lemma copy_loop_push_succeeds:
  "heap_ok st \<Longrightarrow> repr this st ns \<Longrightarrow> cells (heap st) cur ms \<Longrightarrow>
   fst ` set ns \<inter> fst ` set ms = {} \<Longrightarrow> can_alloc (length ms) st \<Longrightarrow>
   \<not> mutex' (objs st this) \<Longrightarrow>
   \<exists>st'. copy_loop_push this cur st = Inr st'"
proof (induction ms arbitrary: st ns cur)
  case Nil
  then show ?case by (simp add: copy_loop_push.simps)
next
  case (Cons m ms)
  obtain c x where m: "m = (c, x)" by (cases m)
  from Cons.prems(3) obtain n where c: "cur = c" "c \<noteq> 0" "heap st c = Some n" "data n = x"
    and cm: "cells (heap st) (next n) ms"
    by (auto simp: m split: option.splits)
  from Cons.prems(4) have cns: "c \<notin> fst ` set ns" by (auto simp: m)
  from Cons.prems(5) have b: "brk st \<noteq> 0" by (simp add: can_alloc_def)
  from push_succeeds [OF Cons.prems(1,2,6) b, of x] obtain st1 where
    pu: "push this x st = Inr st1" by blast
  note e = push_effect [OF Cons.prems(1,2) pu]
  have live: "\<And>a. heap st a \<noteq> None \<Longrightarrow> a \<noteq> brk st"
    using heap_ok_live [OF Cons.prems(1) e(3)] by blast
  have fr: "\<And>a. heap st a \<noteq> None \<Longrightarrow> a \<notin> fst ` set ns \<Longrightarrow> heap st1 a = heap st a"
    using e(7) live by blast
  have c1: "heap st1 c = Some n" using fr [of c] c cns by simp
  have mslive: "\<And>a. a \<in> fst ` set ms \<Longrightarrow> heap st a \<noteq> None"
    using cells_dom [OF cm] by blast
  have msns: "\<And>a. a \<in> fst ` set ms \<Longrightarrow> a \<notin> fst ` set ns"
    using Cons.prems(4) by (auto simp: m)
  have cm1: "cells (heap st1) (next n) ms"
    using cm cells_cong [of ms "heap st1" "heap st" "next n"] fr mslive msns by auto
  have "brk st \<notin> fst ` set ms"
    using mslive live by blast
  then have dj1: "fst ` set (ns @ [(brk st, x)]) \<inter> fst ` set ms = {}"
    using msns by auto
  from Cons.prems(5) have "can_alloc (Suc (length ms)) st" by simp
  then have ca: "can_alloc (length ms) st1" using e(4) by (rule can_alloc_Suc)
  from Cons.IH [OF e(6) e(1) cm1 dj1 ca e(2)] obtain st' where
    "copy_loop_push this (next n) st1 = Inr st'" by blast
  with c pu c1 show ?case
    by (subst copy_loop_push.simps) simp
qed

lemma cleared_simps [simp]:
  "heap (cleared this other A st) = (\<lambda>a. if a \<in> A then None else heap st a)"
  "brk (cleared this other A st) = brk st"
  "objs (cleared this other A st) =
     (objs st)(other := (objs st other)\<lparr>mutex' := True\<rparr>,
               this := (objs st this)\<lparr>mutex' := True, front' := 0, rear' := 0, size' := 0\<rparr>)"
  by (simp_all add: cleared_def)

lemma copy_assign_unfold:
  assumes neq: "this \<noteq> other" and ns: "nodes this st = Some ns"
    and mt: "\<not> mutex' (objs st this)" and mo: "\<not> mutex' (objs st other)"
  shows "copy_assign this other st =
     (case copy_loop_unsafe this (front' (objs st other)) (cleared this other (fst ` set ns) st) of
        Inl e \<Rightarrow> Inl e
      | Inr st6 \<Rightarrow> Inr (unlock this (unlock other st6)))"
proof -
  from ns have c: "cells (heap st) (front' (objs st this)) ns" and d: "distinct (map fst ns)"
    by (simp_all add: nodes_Some_iff)
  define st5 where "st5 =
     obj_update this (\<lambda>q. q\<lparr>size' := 0\<rparr>)
       (obj_update this (\<lambda>q. q\<lparr>rear' := 0\<rparr>)
         ((obj_update this (\<lambda>q. q\<lparr>front' := 0\<rparr>)
            (obj_update other (\<lambda>q. q\<lparr>mutex' := True\<rparr>)
              (obj_update this (\<lambda>q. q\<lparr>mutex' := True\<rparr>) st)))
          \<lparr>heap := (\<lambda>a. if a \<in> fst ` set ns then None else heap st a)\<rparr>))"
  have eq: "st5 = cleared this other (fst ` set ns) st"
    using neq by (simp add: st5_def cleared_def obj_update_def)
  have f5: "front' (objs (cleared this other (fst ` set ns) st) other) = front' (objs st other)"
    using neq by simp
  have "copy_assign this other st =
     (case copy_loop_unsafe this (front' (objs st5 other)) st5 of
        Inl e \<Rightarrow> Inl e
      | Inr st6 \<Rightarrow> Inr (unlock this (unlock other st6)))"
    using neq delete_node_cells [OF c d]
    by (simp add: copy_assign_def lock2_Inr [OF neq mt mo] Let_def st5_def)
  then show ?thesis by (simp only: eq f5)
qed

lemma cleared_facts:
  assumes neq: "this \<noteq> other" and ok: "heap_ok st"
    and ro: "repr other st ms" and dj: "A \<inter> fst ` set ms = {}"
  shows "heap_ok (cleared this other A st)"
    and "repr this (cleared this other A st) []"
    and "cells (heap (cleared this other A st)) (front' (objs st other)) ms"
    and "\<And>a. a \<in> fst ` set ms \<Longrightarrow> heap (cleared this other A st) a \<noteq> None"
    and "\<And>a. a \<in> fst ` set ms \<Longrightarrow> heap (cleared this other A st) a = heap st a"
proof -
  show "heap_ok (cleared this other A st)"
    using ok by (rule heap_ok_free) (simp_all split: if_splits)
  show "repr this (cleared this other A st) []"
    by (rule repr_NilI) simp_all
  from ro have cm: "cells (heap st) (front' (objs st other)) ms"
    by (simp add: repr_def nodes_Some_iff)
  show same: "\<And>a. a \<in> fst ` set ms \<Longrightarrow> heap (cleared this other A st) a = heap st a"
    using dj by auto
  from cm show "cells (heap (cleared this other A st)) (front' (objs st other)) ms"
    using cells_cong [of ms "heap (cleared this other A st)" "heap st"] same by blast
  show "\<And>a. a \<in> fst ` set ms \<Longrightarrow> heap (cleared this other A st) a \<noteq> None"
    using cells_dom [OF cm] same by simp
qed

lemma copy_assign_effect:
  assumes neq: "this \<noteq> other" and ok: "heap_ok st"
    and rt: "repr this st ns" and ro: "repr other st ms"
    and dj: "fst ` set ns \<inter> fst ` set ms = {}"
    and mt: "\<not> mutex' (objs st this)" and mo: "\<not> mutex' (objs st other)"
    and res: "copy_assign this other st = Inr st'"
  shows "\<exists>ks. repr this st' ks \<and> map snd ks = map snd ms \<and> repr other st' ms \<and>
     heap_ok st' \<and> fst ` set ks \<inter> fst ` set ms = {} \<and>
     \<not> mutex' (objs st' this) \<and> \<not> mutex' (objs st' other) \<and>
     objs st' other = objs st other"
proof -
  define st5 where "st5 = cleared this other (fst ` set ns) st"
  from rt have ns: "nodes this st = Some ns" by (simp add: repr_def)
  note cf = cleared_facts [OF neq ok ro dj, folded st5_def]
  from res obtain st6 where
    lp: "copy_loop_unsafe this (front' (objs st other)) st5 = Inr st6"
    and st': "st' = unlock this (unlock other st6)"
    unfolding copy_assign_unfold [OF neq ns mt mo] st5_def
    by (auto split: sum.splits)
  have dj5: "fst ` set [] \<inter> fst ` set ms = {}" by simp
  from copy_loop_unsafe_effect [OF cf(1) cf(2) cf(3) dj5 lp] obtain ks where
    ks: "repr this st6 ks" "map snd ks = map snd ms" "heap_ok st6"
    "\<forall>t. t \<noteq> this \<longrightarrow> objs st6 t = objs st5 t"
    "\<forall>a. heap st5 a \<noteq> None \<longrightarrow> a \<notin> fst ` set [] \<longrightarrow> heap st6 a = heap st5 a"
    "\<forall>a \<in> fst ` set ks. heap st5 a = None"
    by auto
  have o6: "objs st6 other = (objs st other)\<lparr>mutex' := True\<rparr>"
    using ks(4) neq by (simp add: st5_def)
  have h6: "\<And>a. a \<in> fst ` set ms \<Longrightarrow> heap st6 a = heap st a"
    using ks(5) cf(4) cf(5) by simp
  have oo: "objs st' other = objs st other"
    using neq mo by (simp add: st' o6 mutex_False_triv)
  have "repr this st' ks"
    using ks(1) by (rule repr_objs_cong) (simp_all add: st')
  moreover have "repr other st' ms"
    using ro by (rule repr_objs_cong) (simp_all add: oo, simp add: st' h6)
  moreover have "heap_ok st'"
    using ks(3) by (simp add: heap_ok_def st')
  moreover have "fst ` set ks \<inter> fst ` set ms = {}"
    using ks(6) cf(4) by blast
  ultimately show ?thesis
    using ks(2) oo mo neq by (intro exI [of _ ks]) (simp add: st')
qed

lemma copy_assign_succeeds:
  assumes neq: "this \<noteq> other" and ok: "heap_ok st"
    and rt: "repr this st ns" and ro: "repr other st ms"
    and dj: "fst ` set ns \<inter> fst ` set ms = {}"
    and mt: "\<not> mutex' (objs st this)" and mo: "\<not> mutex' (objs st other)"
    and ca: "can_alloc (length ms) st"
  shows "\<exists>st'. copy_assign this other st = Inr st'"
proof -
  define st5 where "st5 = cleared this other (fst ` set ns) st"
  from rt have ns: "nodes this st = Some ns" by (simp add: repr_def)
  note cf = cleared_facts [OF neq ok ro dj, folded st5_def]
  have dj5: "fst ` set [] \<inter> fst ` set ms = {}" by simp
  from ca have ca5: "can_alloc (length ms) st5" by (simp add: can_alloc_def st5_def)
  from copy_loop_unsafe_succeeds [OF cf(1) cf(2) cf(3) dj5 ca5] obtain st6 where
    "copy_loop_unsafe this (front' (objs st other)) st5 = Inr st6" by blast
  then show ?thesis
    unfolding copy_assign_unfold [OF neq ns mt mo] st5_def by simp
qed

lemma constructed_simps [simp]:
  "heap (constructed this other st) = heap st"
  "brk (constructed this other st) = brk st"
  "objs (constructed this other st) =
     (objs st)(this := \<lparr>front' = 0, rear' = 0, size' = 0, mutex' = False\<rparr>,
               other := (objs st other)\<lparr>mutex' := True\<rparr>)"
  by (simp_all add: constructed_def)

lemma copy_construct_unfold:
  assumes neq: "this \<noteq> other" and mo: "\<not> mutex' (objs st other)"
  shows "copy_construct this other st =
     (case copy_loop_push this (front' (objs st other)) (constructed this other st) of
        Inl e \<Rightarrow> Inl e
      | Inr st2 \<Rightarrow> Inr (unlock other st2))"
proof -
  have eq: "obj_update other (\<lambda>q. q\<lparr>mutex' := True\<rparr>) (construct this st) =
      constructed this other st"
    using neq by (simp add: constructed_def obj_update_def construct_def)
  have l: "lock other (construct this st) = Inr (constructed this other st)"
    using neq mo by (simp add: lock_def eq)
  have f: "front' (objs (constructed this other st) other) = front' (objs st other)"
    by simp
  show ?thesis
    by (simp add: copy_construct_def l f)
qed

lemma constructed_facts:
  assumes neq: "this \<noteq> other" and ok: "heap_ok st" and ro: "repr other st ms"
  shows "heap_ok (constructed this other st)"
    and "repr this (constructed this other st) []"
    and "cells (heap (constructed this other st)) (front' (objs st other)) ms"
    and "\<not> mutex' (objs (constructed this other st) this)"
proof -
  show "heap_ok (constructed this other st)"
    using ok by (simp add: heap_ok_def)
  show "repr this (constructed this other st) []"
    using neq by (intro repr_NilI) simp_all
  from ro show "cells (heap (constructed this other st)) (front' (objs st other)) ms"
    by (simp add: repr_def nodes_Some_iff)
  show "\<not> mutex' (objs (constructed this other st) this)"
    using neq by simp
qed

lemma copy_construct_effect:
  assumes neq: "this \<noteq> other" and ok: "heap_ok st"
    and ro: "repr other st ms" and mo: "\<not> mutex' (objs st other)"
    and res: "copy_construct this other st = Inr st'"
  shows "\<exists>ks. repr this st' ks \<and> map snd ks = map snd ms \<and> repr other st' ms \<and>
     heap_ok st' \<and> fst ` set ks \<inter> fst ` set ms = {} \<and>
     \<not> mutex' (objs st' this) \<and> \<not> mutex' (objs st' other) \<and>
     objs st' other = objs st other"
proof -
  define st1 where "st1 = constructed this other st"
  note cf = constructed_facts [OF neq ok ro, folded st1_def]
  from res obtain st2 where
    lp: "copy_loop_push this (front' (objs st other)) st1 = Inr st2"
    and st': "st' = unlock other st2"
    unfolding copy_construct_unfold [OF neq mo] st1_def
    by (auto split: sum.splits)
  have dj1: "fst ` set [] \<inter> fst ` set ms = {}" by simp
  from copy_loop_push_effect [OF cf(1) cf(2) cf(3) dj1 lp cf(4)] obtain ks where
    ks: "repr this st2 ks" "map snd ks = map snd ms" "heap_ok st2"
    "\<forall>t. t \<noteq> this \<longrightarrow> objs st2 t = objs st1 t"
    "\<not> mutex' (objs st2 this)"
    "\<forall>a. heap st1 a \<noteq> None \<longrightarrow> a \<notin> fst ` set [] \<longrightarrow> heap st2 a = heap st1 a"
    "\<forall>a \<in> fst ` set ks. heap st1 a = None"
    by auto
  from ro have cm: "cells (heap st) (front' (objs st other)) ms"
    by (simp add: repr_def nodes_Some_iff)
  have live: "\<And>a. a \<in> fst ` set ms \<Longrightarrow> heap st a \<noteq> None"
    using cells_dom [OF cm] by blast
  have o2: "objs st2 other = (objs st other)\<lparr>mutex' := True\<rparr>"
    using ks(4) neq by (simp add: st1_def)
  have h2: "\<And>a. a \<in> fst ` set ms \<Longrightarrow> heap st2 a = heap st a"
    using ks(6) live by (simp add: st1_def)
  have oo: "objs st' other = objs st other"
    using neq mo by (simp add: st' o2 mutex_False_triv)
  have "repr this st' ks"
    using ks(1) by (rule repr_objs_cong) (use neq in \<open>simp_all add: st'\<close>)
  moreover have "repr other st' ms"
    using ro by (rule repr_objs_cong) (simp_all add: oo, simp add: st' h2)
  moreover have "heap_ok st'"
    using ks(3) by (simp add: heap_ok_def st')
  moreover have "fst ` set ks \<inter> fst ` set ms = {}"
  proof -
    have "\<forall>a \<in> fst ` set ks. heap st a = None"
      using ks(7) by (simp add: st1_def)
    with live show ?thesis by blast
  qed
  ultimately show ?thesis
    using ks(2,5) oo mo neq by (intro exI [of _ ks]) (simp add: st')
qed

lemma copy_construct_succeeds:
  assumes neq: "this \<noteq> other" and ok: "heap_ok st"
    and ro: "repr other st ms" and mo: "\<not> mutex' (objs st other)"
    and ca: "can_alloc (length ms) st"
  shows "\<exists>st'. copy_construct this other st = Inr st'"
proof -
  define st1 where "st1 = constructed this other st"
  note cf = constructed_facts [OF neq ok ro, folded st1_def]
  have dj1: "fst ` set [] \<inter> fst ` set ms = {}" by simp
  from ca have ca1: "can_alloc (length ms) st1" by (simp add: can_alloc_def st1_def)
  from copy_loop_push_succeeds [OF cf(1) cf(2) cf(3) dj1 ca1 cf(4)] obtain st2 where
    "copy_loop_push this (front' (objs st other)) st1 = Inr st2" by blast
  then show ?thesis
    unfolding copy_construct_unfold [OF neq mo] st1_def by simp
qed

lemma try_pop_Inr_mutex: "try_pop this v st = Inr r \<Longrightarrow> \<not> mutex' (objs st this)"
  by (auto simp: try_pop_def lock_def split: if_splits)

lemma try_peek_Inr:
  "try_peek this v st = Inr (r, x, st') \<Longrightarrow> st' = st \<and> \<not> mutex' (objs st this)"
  by (auto simp: try_peek_def lock_def unlock_lock split: if_splits option.splits)

lemma pop_Some_Inr:
  "pop this v st = Some (Inr (x, st')) \<Longrightarrow> \<exists>r. try_pop this v st = Inr (r, x, st')"
  by (auto simp: pop_eq split: sum.splits if_splits)

lemma copy_construct_Inr_mutex:
  "this \<noteq> other \<Longrightarrow> copy_construct this other st = Inr st' \<Longrightarrow> \<not> mutex' (objs st other)"
  by (auto simp: copy_construct_def lock_def split: if_splits)

lemma move_construct_Inr_mutex:
  "this \<noteq> other \<Longrightarrow> move_construct this other st = Inr st' \<Longrightarrow> \<not> mutex' (objs st other)"
  by (auto simp: move_construct_def lock_def split: if_splits)

lemma lock2_Inr_mutex:
  "this \<noteq> other \<Longrightarrow> lock2 this other st = Inr st1 \<Longrightarrow>
   \<not> mutex' (objs st this) \<and> \<not> mutex' (objs st other)"
  by (auto simp: lock2_def lock_def split: if_splits)

lemma copy_assign_Inr_mutex:
  "this \<noteq> other \<Longrightarrow> copy_assign this other st = Inr st' \<Longrightarrow>
   \<not> mutex' (objs st this) \<and> \<not> mutex' (objs st other)"
  using lock2_Inr_mutex [of this other st]
  by (cases "lock2 this other st") (auto simp: copy_assign_def)

lemma move_assign_Inr_mutex:
  "this \<noteq> other \<Longrightarrow> move_assign this other st = Inr st' \<Longrightarrow>
   \<not> mutex' (objs st this) \<and> \<not> mutex' (objs st other)"
  using lock2_Inr_mutex [of this other st]
  by (cases "lock2 this other st") (auto simp: move_assign_def)

lemma try_pop_inv:
  assumes inv: "queue_inv this st" and res: "try_pop this v st = Inr (r, x, st')"
  shows "queue_inv this st'"
proof -
  from inv obtain ns where rp: "repr this st ns" by (auto simp: queue_inv_iff)
  note m = try_pop_Inr_mutex [OF res]
  show ?thesis
  proof (cases ns)
    case Nil
    with rp m res inv show ?thesis by (simp add: try_pop_repr_empty)
  next
    case (Cons n ms)
    obtain a y where n: "n = (a, y)" by (cases n)
    from try_pop_repr [OF rp [unfolded Cons n] m, of v] res
    have "repr this st' ms" by auto
    then show ?thesis by (auto simp: queue_inv_iff)
  qed
qed

lemma push_inv:
  assumes ok: "heap_ok st" and inv: "queue_inv this st" and res: "push this v st = Inr st'"
  shows "queue_inv this st'"
proof -
  from inv obtain ns where rp: "repr this st ns" by (auto simp: queue_inv_iff)
  from push_effect(1) [OF ok rp res] show ?thesis by (auto simp: queue_inv_iff)
qed

lemma frame_push:
  assumes neq: "a \<noteq> b" and ok: "heap_ok st"
    and ra: "repr a st ns" and rb: "repr b st ms"
    and dj: "fst ` set ns \<inter> fst ` set ms = {}"
    and res: "push a v st = Inr st2"
  shows "objs st2 b = objs st b" and "repr b st2 ms"
proof -
  note e = push_effect [OF ok ra res]
  from neq e(5) show o: "objs st2 b = objs st b" by simp
  from rb have cm: "cells (heap st) (front' (objs st b)) ms"
    by (simp add: repr_def nodes_Some_iff)
  have live: "\<And>c. c \<in> fst ` set ms \<Longrightarrow> heap st c \<noteq> None"
    using cells_dom [OF cm] by blast
  show "repr b st2 ms"
    using rb o
  proof (rule repr_frame)
    fix c assume c: "c \<in> fst ` set ms"
    then have "c \<noteq> brk st"
      using heap_ok_live [OF ok e(3)] live by blast
    moreover from c dj have "c \<notin> fst ` set ns" by blast
    ultimately show "heap st2 c = heap st c" by (intro e(7))
  qed
qed

lemma frame_try_pop:
  assumes neq: "a \<noteq> b"
    and ra: "repr a st ns" and rb: "repr b st ms"
    and dj: "fst ` set ns \<inter> fst ` set ms = {}"
    and res: "try_pop a v st = Inr (r, x, st2)"
  shows "objs st2 b = objs st b" and "repr b st2 ms"
proof -
  note m = try_pop_Inr_mutex [OF res]
  have "objs st2 b = objs st b \<and> repr b st2 ms"
  proof (cases ns)
    case Nil
    with ra m res rb show ?thesis by (simp add: try_pop_repr_empty)
  next
    case (Cons n ns')
    obtain c y where n: "n = (c, y)" by (cases n)
    from try_pop_repr [OF ra [unfolded Cons n] m, of v] res
    have o: "\<forall>t. t \<noteq> a \<longrightarrow> objs st2 t = objs st t" and h: "heap st2 = (heap st)(c := None)"
      by auto
    from o neq have ob: "objs st2 b = objs st b" by simp
    from dj have "c \<notin> fst ` set ms" by (auto simp: Cons n)
    then have "\<And>d. d \<in> fst ` set ms \<Longrightarrow> heap st2 d = heap st d"
      by (auto simp: h)
    with rb ob have "repr b st2 ms" by (rule repr_frame)
    with ob show ?thesis ..
  qed
  then show "objs st2 b = objs st b" and "repr b st2 ms" by simp_all
qed

lemma unaffectedI: "repr b st ms \<Longrightarrow> repr b st2 ms \<Longrightarrow> objs st2 b = objs st b \<Longrightarrow>
  unaffected b st st2"
  by (simp add: unaffected_def elements_repr)

lemma independentI:
  assumes neq: "a \<noteq> b" and ok: "heap_ok st"
    and ra: "repr a st ns" and rb: "repr b st ms"
    and dj: "fst ` set ns \<inter> fst ` set ms = {}"
  shows "independent a b st"
  unfolding independent_def
proof (intro conjI allI impI)
  fix v st2 assume "push a v st = Inr st2"
  from frame_push [OF neq ok ra rb dj this] show "unaffected b st st2"
    using rb by (intro unaffectedI)
next
  fix v r x st2 assume "try_pop a v st = Inr (r, x, st2)"
  from frame_try_pop [OF neq ra rb dj this] show "unaffected b st st2"
    using rb by (intro unaffectedI)
next
  fix v x st2 assume "pop a v st = Some (Inr (x, st2))"
  from pop_Some_Inr [OF this] obtain r where "try_pop a v st = Inr (r, x, st2)" ..
  from frame_try_pop [OF neq ra rb dj this] show "unaffected b st st2"
    using rb by (intro unaffectedI)
next
  fix v timeout r x st2 assume "pop_timed a v timeout st = Inr (r, x, st2)"
  then have "try_pop a v st = Inr (r, x, st2)" by (simp add: pop_timed_eq)
  from frame_try_pop [OF neq ra rb dj this] show "unaffected b st st2"
    using rb by (intro unaffectedI)
qed

lemma repr_size_eq:
  "repr a st ns \<Longrightarrow> repr b st' ms \<Longrightarrow> length ns = length ms \<Longrightarrow>
   size' (objs st a) = size' (objs st' b)"
  by (simp add: repr_def word_unat_eq_iff)

lemma copied_independentI:
  assumes neq: "this \<noteq> other" and ro: "repr other st ms"
    and rt': "repr this st' ks" and ro': "repr other st' ms"
    and ks: "map snd ks = map snd ms" and ok': "heap_ok st'"
    and dj: "fst ` set ks \<inter> fst ` set ms = {}"
    and oo: "objs st' other = objs st other"
  shows "copied this other st st' \<and> independent this other st' \<and> independent other this st'"
proof -
  from ks have l: "length ks = length ms" using map_eq_imp_length_eq by blast
  have "elements this st' = elements other st"
    using elements_repr [OF rt'] elements_repr [OF ro] ks by simp
  moreover have "elements other st' = elements other st"
    using elements_repr [OF ro'] elements_repr [OF ro] by simp
  moreover have "nodes other st' = nodes other st"
    using ro ro' by (simp add: repr_def)
  moreover have "queue_inv this st'" "queue_inv other st'"
    using rt' ro' by (auto simp: queue_inv_iff)
  moreover have "separate this other st'"
    using dj by (simp add: separate_repr [OF rt' ro'])
  ultimately have "copied this other st st'"
    unfolding copied_def
    using oo repr_size_eq [OF rt' ro l] by simp
  moreover have "independent this other st'"
    using neq ok' rt' ro' dj by (rule independentI)
  moreover have "independent other this st'"
    using neq [symmetric] ok' ro' rt' by (rule independentI) (use dj in blast)
  ultimately show ?thesis by simp
qed

lemma ex_sep10: "separate 1 0 example_state"
  using ex_nodes0 ex_nodes1 by (simp add: separate_def)

lemma ex_mutex: "\<not> mutex' (objs example_state t)"
  by (simp add: example_state_def)

lemma ex_repr0: "repr 0 example_state [(1, 10), (2, 20), (3, 30)]"
  by (simp add: repr_def ex_nodes0) (simp add: example_state_def)

lemma ex_repr1: "repr (Suc 0) example_state [(4, 40)]"
  by (simp add: repr_def ex_nodes1) (simp add: example_state_def)

lemma ex_sep01: "fst ` set [(1::addr, 10::nat), (2, 20), (3, 30)] \<inter> fst ` set [(4::addr, 40::nat)] = {}"
  by simp

lemma ex_brk: "brk example_state \<noteq> 0"
  by (simp add: example_state_def)

lemma copy_assign_inv:
  assumes ok: "heap_ok st" and it: "queue_inv this st" and io: "queue_inv other st"
    and sep: "other \<noteq> this \<longrightarrow> separate this other st"
    and res: "copy_assign this other st = Inr st'"
  shows "queue_inv this st' \<and> queue_inv other st'"
proof (cases "this = other")
  case True
  with res it show ?thesis by (simp add: copy_assign_def)
next
  case neq: False
  from it obtain ns where rt: "repr this st ns" by (auto simp: queue_inv_iff)
  from io obtain ms where ro: "repr other st ms" by (auto simp: queue_inv_iff)
  from sep neq have dj: "fst ` set ns \<inter> fst ` set ms = {}"
    by (simp add: separate_repr [OF rt ro])
  from copy_assign_Inr_mutex [OF neq res]
  have mt: "\<not> mutex' (objs st this)" and mo: "\<not> mutex' (objs st other)" by simp_all
  from copy_assign_effect [OF neq ok rt ro dj mt mo res] obtain ks where
    "repr this st' ks" "repr other st' ms" by blast
  then show ?thesis by (auto simp: queue_inv_iff)
qed

lemma move_assign_inv:
  assumes it: "queue_inv this st" and io: "queue_inv other st"
    and sep: "other \<noteq> this \<longrightarrow> separate this other st"
    and res: "move_assign this other st = Inr st'"
  shows "queue_inv this st' \<and> queue_inv other st'"
proof (cases "this = other")
  case True
  with res it show ?thesis by (simp add: move_assign_def)
next
  case neq: False
  from it obtain ns where rt: "repr this st ns" by (auto simp: queue_inv_iff)
  from io obtain ms where ro: "repr other st ms" by (auto simp: queue_inv_iff)
  from sep neq have dj: "fst ` set ns \<inter> fst ` set ms = {}"
    by (simp add: separate_repr [OF rt ro])
  from move_assign_Inr_mutex [OF neq res]
  have mt: "\<not> mutex' (objs st this)" and mo: "\<not> mutex' (objs st other)" by simp_all
  from move_assign_effect [OF neq rt ro dj mt mo] res obtain st2 where
    "st2 = st'" "repr this st2 ms" "repr other st2 []" by auto
  then show ?thesis by (auto simp: queue_inv_iff)
qed

lemma copy_construct_inv:
  assumes ok: "heap_ok st" and io: "queue_inv other st" and neq: "this \<noteq> other"
    and res: "copy_construct this other st = Inr st'"
  shows "queue_inv this st' \<and> queue_inv other st'"
proof -
  from io obtain ms where ro: "repr other st ms" by (auto simp: queue_inv_iff)
  note mo = copy_construct_Inr_mutex [OF neq res]
  from copy_construct_effect [OF neq ok ro mo res] obtain ks where
    "repr this st' ks" "repr other st' ms" by blast
  then show ?thesis by (auto simp: queue_inv_iff)
qed

lemma move_construct_inv:
  assumes io: "queue_inv other st" and neq: "this \<noteq> other"
    and res: "move_construct this other st = Inr st'"
  shows "queue_inv this st' \<and> queue_inv other st'"
proof -
  from io obtain ms where ro: "repr other st ms" by (auto simp: queue_inv_iff)
  note mo = move_construct_Inr_mutex [OF neq res]
  from move_construct_effect [OF neq ro mo] res obtain st2 where
    "st2 = st'" "repr this st2 ms" "repr other st2 []" by auto
  then show ?thesis by (auto simp: queue_inv_iff)
qed

section \<open>The claims\<close>

text \<open>
  The theorems are about one thread's calls on a state between calls. What they assume
  of that state is what holds there in every run: the allocator's invariant \<open>heap_ok\<close>,
  the queue's invariant \<open>queue_inv\<close>, a free mutex (a held one makes the call wait for
  its holder, which the model has not), and, where two queues take part, that they own
  different nodes (\<open>separate\<close>).
\<close>

text \<open>
  C1. FIFO order. Values pushed one call after the other into an empty queue come out in
  the same order: after pushing \<open>vs\<close>, any sequence of as many removal calls, each of
  them \<open>try_pop\<close>, \<open>pop\<close> or the timed \<open>pop\<close>, returns exactly the values of \<open>vs\<close> in
  order, and a \<open>try_pop\<close> after them returns "no value". The pushes themselves all
  return when there is memory for the nodes.
\<close>

theorem fifo_order:
  assumes ok: "heap_ok st" and inv: "queue_inv this st"
    and emp: "empty_unsafe this st" and mtx: "\<not> mutex' (objs st this)"
  shows "(can_alloc (length vs) st \<longrightarrow> (\<exists>st1. push_all this vs st = Inr st1)) \<and>
     (\<forall>st1 rs v. push_all this vs st = Inr st1 \<and> length rs = length vs \<longrightarrow>
        (\<exists>st2. removals this rs v st1 = Some (map Some vs, st2) \<and>
           (\<forall>w. try_pop this w st2 = Inr (False, w, st2))))"
proof -
  from inv obtain ns where rp: "repr this st ns" by (auto simp: queue_inv_iff)
  with emp have "ns = []"
    using nodes_empty_iff [of this st ns] by (simp add: repr_def empty_unsafe_def)
  with rp have rp0: "repr this st []" by simp
  have "\<exists>st2. removals this rs v st1 = Some (map Some vs, st2) \<and>
           (\<forall>w. try_pop this w st2 = Inr (False, w, st2))"
    if p: "push_all this vs st = Inr st1" and l: "length rs = length vs" for st1 rs v
  proof -
    from push_all_repr [OF ok rp0 mtx p] obtain ms where
      ms: "repr this st1 ms" "map snd ms = vs" "\<not> mutex' (objs st1 this)"
      by auto
    from l ms(2) have "length rs = length ms" by auto
    from removals_repr [OF ms(1) ms(3) this, of v] obtain st2 where
      r: "removals this rs v st1 = Some (map (\<lambda>n. Some (snd n)) ms, st2)"
      and e: "repr this st2 []" "\<not> mutex' (objs st2 this)"
      by auto
    have "map (\<lambda>n. Some (snd n)) ms = map Some vs"
      using ms(2) by auto
    have t: "\<forall>w. try_pop this w st2 = Inr (False, w, st2)"
      using try_pop_repr_empty [OF e] by simp
    from r t show ?thesis
      unfolding \<open>map (\<lambda>n. Some (snd n)) ms = map Some vs\<close> by (intro exI [of _ st2] conjI)
  qed
  then have "\<forall>st1 rs v. push_all this vs st = Inr st1 \<and> length rs = length vs \<longrightarrow>
        (\<exists>st2. removals this rs v st1 = Some (map Some vs, st2) \<and>
           (\<forall>w. try_pop this w st2 = Inr (False, w, st2)))"
    by (intro allI impI) (elim conjE)
  moreover have "can_alloc (length vs) st \<longrightarrow> (\<exists>st1. push_all this vs st = Inr st1)"
    using push_all_succeeds [OF ok rp0 mtx, of vs] by (intro impI)
  ultimately show ?thesis by (intro conjI)
qed


theorem fifo_order_witness:
  "heap_ok (init_state :: nat state) \<and> queue_inv 0 (init_state :: nat state) \<and>
   empty_unsafe 0 (init_state :: nat state) \<and> \<not> mutex' (objs (init_state :: nat state) 0) \<and>
   can_alloc (length [1, 2, 3 :: nat]) (init_state :: nat state) \<and>
   (\<exists>st1. push_all 0 [1, 2, 3 :: nat] init_state = Inr st1 \<and>
      (\<exists>st2. removals 0 [TryPop, Pop, PopTimed 250] 0 st1 = Some ([Some 1, Some 2, Some 3], st2) \<and>
         try_pop 0 9 st2 = Inr (False, 9, st2)))"
proof -
  have ok: "heap_ok (init_state :: nat state)"
    by (simp add: heap_ok_def init_state_def)
  have inv: "queue_inv 0 (init_state :: nat state)"
    by (simp add: queue_inv_def nodes_def chain.simps init_state_def)
  have emp: "empty_unsafe 0 (init_state :: nat state)"
    by (simp add: empty_unsafe_def init_state_def)
  have mtx: "\<not> mutex' (objs (init_state :: nat state) 0)"
    by (simp add: init_state_def)
  have ca: "can_alloc (length [1, 2, 3 :: nat]) (init_state :: nat state)"
    by (simp add: can_alloc_def init_state_def)
  note t = fifo_order [OF ok inv emp mtx, of "[1, 2, 3]"]
  from t ca obtain st1 where p: "push_all 0 [1, 2, 3 :: nat] init_state = Inr st1"
    by blast
  have l: "length [TryPop, Pop, PopTimed 250] = length [1, 2, 3 :: nat]" by simp
  from t p l obtain st2 where
    "removals 0 [TryPop, Pop, PopTimed 250] 0 st1 = Some (map Some [1, 2, 3], st2)"
    "\<forall>w. try_pop 0 w st2 = Inr (False, w, st2)"
    by blast
  with p ok inv emp mtx ca show ?thesis by auto
qed

text \<open>
  C2. Every operation preserves the structural invariant (\<open>front_\<close> is null iff \<open>rear_\<close>
  is null iff \<open>size_\<close> is 0; the chain from \<open>front_\<close> has exactly \<open>size_\<close> nodes and its
  last node is the one \<open>rear_\<close> points to): \<open>push\<close>, \<open>try_pop\<close>, \<open>pop\<close>, the timed
  \<open>pop\<close> and \<open>try_peek\<close> on the queue itself, and copy and move construction and
  assignment for both queues they involve.
\<close>

theorem invariant_preserved:
  assumes ok: "heap_ok st" and inv: "queue_inv this st"
  shows "(\<forall>v st'. push this v st = Inr st' \<longrightarrow> queue_inv this st') \<and>
     (\<forall>v r x st'. try_pop this v st = Inr (r, x, st') \<longrightarrow> queue_inv this st') \<and>
     (\<forall>v x st'. pop this v st = Some (Inr (x, st')) \<longrightarrow> queue_inv this st') \<and>
     (\<forall>v timeout r x st'. pop_timed this v timeout st = Inr (r, x, st') \<longrightarrow>
        queue_inv this st') \<and>
     (\<forall>v r x st'. try_peek this v st = Inr (r, x, st') \<longrightarrow> queue_inv this st') \<and>
     (\<forall>new st'. new \<noteq> this \<and> copy_construct new this st = Inr st' \<longrightarrow>
        queue_inv new st' \<and> queue_inv this st') \<and>
     (\<forall>new st'. new \<noteq> this \<and> move_construct new this st = Inr st' \<longrightarrow>
        queue_inv new st' \<and> queue_inv this st') \<and>
     (\<forall>other st'. queue_inv other st \<and> (other \<noteq> this \<longrightarrow> separate this other st) \<and>
        copy_assign this other st = Inr st' \<longrightarrow>
        queue_inv this st' \<and> queue_inv other st') \<and>
     (\<forall>other st'. queue_inv other st \<and> (other \<noteq> this \<longrightarrow> separate this other st) \<and>
        move_assign this other st = Inr st' \<longrightarrow>
        queue_inv this st' \<and> queue_inv other st')"
proof (intro conjI allI impI)
  fix v st' assume "push this v st = Inr st'"
  with ok inv show "queue_inv this st'" by (rule push_inv)
next
  fix v r x st' assume "try_pop this v st = Inr (r, x, st')"
  with inv show "queue_inv this st'" by (rule try_pop_inv)
next
  fix v x st' assume "pop this v st = Some (Inr (x, st'))"
  from pop_Some_Inr [OF this] obtain r where "try_pop this v st = Inr (r, x, st')" ..
  with inv show "queue_inv this st'" by (rule try_pop_inv)
next
  fix v timeout r x st' assume "pop_timed this v timeout st = Inr (r, x, st')"
  then have "try_pop this v st = Inr (r, x, st')" by (simp add: pop_timed_eq)
  with inv show "queue_inv this st'" by (rule try_pop_inv)
next
  fix v r x st' assume "try_peek this v st = Inr (r, x, st')"
  from try_peek_Inr [OF this] inv show "queue_inv this st'" by simp
next
  fix new st' assume a: "new \<noteq> this \<and> copy_construct new this st = Inr st'"
  then have "queue_inv new st' \<and> queue_inv this st'"
    using copy_construct_inv [OF ok inv, of new st'] by simp
  then show "queue_inv new st'" "queue_inv this st'" by simp_all
next
  fix new st' assume a: "new \<noteq> this \<and> move_construct new this st = Inr st'"
  then have "queue_inv new st' \<and> queue_inv this st'"
    using move_construct_inv [OF inv, of new st'] by simp
  then show "queue_inv new st'" "queue_inv this st'" by simp_all
next
  fix other st'
  assume a: "queue_inv other st \<and> (other \<noteq> this \<longrightarrow> separate this other st) \<and>
        copy_assign this other st = Inr st'"
  then have "queue_inv this st' \<and> queue_inv other st'"
    using copy_assign_inv [OF ok inv, of other st'] by simp
  then show "queue_inv this st'" "queue_inv other st'" by simp_all
next
  fix other st'
  assume a: "queue_inv other st \<and> (other \<noteq> this \<longrightarrow> separate this other st) \<and>
        move_assign this other st = Inr st'"
  then have "queue_inv this st' \<and> queue_inv other st'"
    using move_assign_inv [OF inv, of other st'] by simp
  then show "queue_inv this st'" "queue_inv other st'" by simp_all
qed

theorem invariant_preserved_witness:
  "heap_ok example_state \<and> queue_inv 0 example_state \<and>
   (\<exists>st'. push 0 50 example_state = Inr st' \<and> queue_inv 0 st') \<and>
   (\<exists>x st'. try_pop 0 7 example_state = Inr (True, x, st') \<and> queue_inv 0 st') \<and>
   queue_inv 1 example_state \<and> separate 0 1 example_state \<and>
   (\<exists>st'. copy_assign 0 1 example_state = Inr st' \<and> queue_inv 0 st' \<and> queue_inv 1 st') \<and>
   (\<exists>st'. move_assign 0 1 example_state = Inr st' \<and> queue_inv 0 st' \<and> queue_inv 1 st')"
proof -
  note t = invariant_preserved [OF ex_heap_ok ex_inv0]
  note t_push = t [THEN conjunct1, rule_format]
  note t_try_pop = t [THEN conjunct2, THEN conjunct1, rule_format]
  note t_copy = t [THEN conjunct2, THEN conjunct2, THEN conjunct2, THEN conjunct2,
    THEN conjunct2, THEN conjunct2, THEN conjunct2, THEN conjunct1, rule_format]
  note t_move = t [THEN conjunct2, THEN conjunct2, THEN conjunct2, THEN conjunct2,
    THEN conjunct2, THEN conjunct2, THEN conjunct2, THEN conjunct2, rule_format]
  have n: "(0::nat) \<noteq> Suc 0" by simp
  have sep: "Suc 0 \<noteq> 0 \<longrightarrow> separate 0 (Suc 0) example_state"
    using ex_sep by simp
  have inv1: "queue_inv (Suc 0) example_state" using ex_inv1 by simp
  from push_succeeds [OF ex_heap_ok ex_repr0 ex_mutex ex_brk, of 50] obtain s1 where
    s1: "push 0 50 example_state = Inr s1" ..
  from t_push [OF s1] have p1: "queue_inv 0 s1" .
  from try_pop_repr [OF ex_repr0 ex_mutex, of 7] obtain s2 where
    s2: "try_pop 0 7 example_state = Inr (True, 10, s2)" by (elim exE conjE)
  from t_try_pop [OF s2] have p2: "queue_inv 0 s2" .
  have ca: "can_alloc (length [(4::addr, 40::nat)]) example_state"
    by (simp add: can_alloc_def example_state_def)
  from copy_assign_succeeds [OF n ex_heap_ok ex_repr0 ex_repr1 ex_sep01 ex_mutex ex_mutex ca]
  obtain s3 where s3: "copy_assign 0 (Suc 0) example_state = Inr s3" ..
  from t_copy [of "Suc 0" s3] inv1 sep s3
  have p3: "queue_inv 0 s3 \<and> queue_inv (Suc 0) s3" by simp
  from move_assign_effect [OF n ex_repr0 ex_repr1 ex_sep01 ex_mutex ex_mutex]
  obtain s4 where s4: "move_assign 0 (Suc 0) example_state = Inr s4" by (elim exE conjE)
  from t_move [of "Suc 0" s4] inv1 sep s4
  have p4: "queue_inv 0 s4 \<and> queue_inv (Suc 0) s4" by simp
  from s1 p1 s2 p2 s3 p3 s4 p4 ex_heap_ok ex_inv0 ex_inv1 ex_sep show ?thesis
    by simp
qed

text \<open>
  C3. If the queue is empty, \<open>try_pop\<close> returns "no value" (false) and leaves the
  queue exactly as it was, with size 0. It has no wait in it: with the mutex free it
  returns at once, and the state it returns is the state it was given.
\<close>

theorem try_pop_on_empty:
  assumes "empty_unsafe this st" and "\<not> mutex' (objs st this)"
  shows "try_pop this v st = Inr (False, v, st) \<and>
         (queue_inv this st \<longrightarrow> size' (objs st this) = 0)"
  using assms by (simp add: empty_unsafe_def try_pop_empty queue_inv_empty_size)

theorem try_pop_on_empty_witness:
  "empty_unsafe 0 (init_state :: nat state) \<and> \<not> mutex' (objs (init_state :: nat state) 0) \<and>
   try_pop 0 7 (init_state :: nat state) = Inr (False, 7, init_state) \<and>
   queue_inv 0 (init_state :: nat state) \<and> size' (objs (init_state :: nat state) 0) = 0"
proof -
  have e: "empty_unsafe 0 (init_state :: nat state)"
    by (simp add: empty_unsafe_def init_state_def)
  have m: "\<not> mutex' (objs (init_state :: nat state) 0)"
    by (simp add: init_state_def)
  have q: "queue_inv 0 (init_state :: nat state)"
    by (simp add: queue_inv_def nodes_def chain.simps init_state_def)
  from try_pop_on_empty [OF e m, of 7] e m q show ?thesis by simp
qed

text \<open>
  C4. When the timed \<open>pop\<close>'s wait ends on a queue that is still empty, the call returns
  "no value" and the state is exactly the one before the call: \<open>front_\<close>, \<open>rear_\<close>,
  \<open>size_\<close> and every node are untouched.
\<close>

theorem pop_timed_timeout:
  assumes "empty_unsafe this st" and "\<not> mutex' (objs st this)"
  shows "pop_timed this v timeout st = Inr (False, v, st)"
  using assms by (simp add: empty_unsafe_def pop_timed_empty)

theorem pop_timed_timeout_witness:
  "empty_unsafe 0 (init_state :: nat state) \<and> \<not> mutex' (objs (init_state :: nat state) 0) \<and>
   pop_timed 0 7 250 (init_state :: nat state) = Inr (False, 7, init_state)"
proof -
  have e: "empty_unsafe 0 (init_state :: nat state)"
    by (simp add: empty_unsafe_def init_state_def)
  have m: "\<not> mutex' (objs (init_state :: nat state) 0)"
    by (simp add: init_state_def)
  from pop_timed_timeout [OF e m, of 7 250] e m show ?thesis by simp
qed

text \<open>
  C5. On a non-empty queue the blocking \<open>pop\<close>, the timed \<open>pop\<close> and \<open>try_pop\<close> do
  the same removal: each returns the front element and leaves the same state, which holds
  the remaining elements, has a size one smaller, and has \<open>rear_\<close> cleared when the last
  element went.
\<close>

theorem removal_paths_agree:
  assumes ne: "\<not> empty_unsafe this st" and mtx: "\<not> mutex' (objs st this)"
  shows "pop_timed this v timeout st = try_pop this v st \<and>
     pop this v st =
       Some (case try_pop this v st of
               Inl e \<Rightarrow> Inl e
             | Inr (b, x, st') \<Rightarrow> Inr (x, st')) \<and>
     (queue_inv this st \<longrightarrow>
        (\<exists>x xs st'. elements this st = Some (x # xs) \<and>
           try_pop this v st = Inr (True, x, st') \<and>
           pop_timed this v timeout st = Inr (True, x, st') \<and>
           pop this v st = Some (Inr (x, st')) \<and>
           elements this st' = Some xs \<and>
           size' (objs st' this) = size' (objs st this) - 1 \<and>
           (xs = [] \<longrightarrow> rear' (objs st' this) = 0) \<and>
           queue_inv this st'))"
proof (intro conjI impI)
  show "pop_timed this v timeout st = try_pop this v st"
    by (rule pop_timed_eq)
  show "pop this v st =
       Some (case try_pop this v st of
               Inl e \<Rightarrow> Inl e
             | Inr (b, x, st') \<Rightarrow> Inr (x, st'))"
    using ne mtx by (simp add: pop_eq lock_def empty_unsafe_def)
next
  assume inv: "queue_inv this st"
  from inv obtain ns where rp: "repr this st ns" by (auto simp: queue_inv_iff)
  from repr_nonempty [OF rp ne] obtain a x ms where ns: "ns = (a, x) # ms" by auto
  from rp have nd: "nodes this st = Some ((a, x) # ms)"
    and rear: "rear' (objs st this) = fst (last ((a, x) # ms))"
    by (simp_all add: repr_def ns)
  from try_pop_effect [OF nd rear mtx, of v] obtain st' where
    tp: "try_pop this v st = Inr (True, x, st')"
    and sz: "size' (objs st' this) = size' (objs st this) - 1"
    and rr: "rear' (objs st' this) = (if ms = [] then 0 else fst (last ms))"
    by auto
  from try_pop_repr [OF rp [unfolded ns] mtx, of v] tp have rp': "repr this st' ms"
    by auto
  have "elements this st = Some (x # map snd ms)"
    using elements_repr [OF rp] by (simp add: ns)
  moreover have "elements this st' = Some (map snd ms)"
    by (rule elements_repr [OF rp'])
  moreover have "queue_inv this st'"
    using rp' by (auto simp: queue_inv_iff)
  moreover have "pop this v st = Some (Inr (x, st'))"
    by (rule pop_nonempty [OF mtx ne tp])
  ultimately show "\<exists>x xs st'. elements this st = Some (x # xs) \<and>
           try_pop this v st = Inr (True, x, st') \<and>
           pop_timed this v timeout st = Inr (True, x, st') \<and>
           pop this v st = Some (Inr (x, st')) \<and>
           elements this st' = Some xs \<and>
           size' (objs st' this) = size' (objs st this) - 1 \<and>
           (xs = [] \<longrightarrow> rear' (objs st' this) = 0) \<and>
           queue_inv this st'"
    using tp sz rr by (auto simp: pop_timed_eq)
qed

theorem removal_paths_agree_witness:
  "\<not> empty_unsafe 0 example_state \<and> \<not> mutex' (objs example_state 0) \<and>
   queue_inv 0 example_state \<and>
   pop_timed 0 7 250 example_state = try_pop 0 7 example_state \<and>
   (\<exists>x xs st'. elements 0 example_state = Some (x # xs) \<and>
      try_pop 0 7 example_state = Inr (True, x, st') \<and>
      pop_timed 0 7 250 example_state = Inr (True, x, st') \<and>
      pop 0 7 example_state = Some (Inr (x, st')) \<and>
      elements 0 st' = Some xs \<and>
      size' (objs st' 0) = size' (objs example_state 0) - 1 \<and>
      (xs = [] \<longrightarrow> rear' (objs st' 0) = 0) \<and>
      queue_inv 0 st')"
proof -
  have e: "\<not> empty_unsafe 0 example_state"
    by (simp add: empty_unsafe_def example_state_def)
  have m: "\<not> mutex' (objs example_state 0)"
    by (simp add: example_state_def)
  note t = removal_paths_agree [OF e m, of 7 250]
  from t have a: "pop_timed 0 7 250 example_state = try_pop 0 7 example_state" ..
  from t ex_inv0 have "\<exists>x xs st'. elements 0 example_state = Some (x # xs) \<and>
      try_pop 0 7 example_state = Inr (True, x, st') \<and>
      pop_timed 0 7 250 example_state = Inr (True, x, st') \<and>
      pop 0 7 example_state = Some (Inr (x, st')) \<and>
      elements 0 st' = Some xs \<and>
      size' (objs st' 0) = size' (objs example_state 0) - 1 \<and>
      (xs = [] \<longrightarrow> rear' (objs st' 0) = 0) \<and>
      queue_inv 0 st'"
    by (elim conjE) (erule mp)
  with a e m ex_inv0 show ?thesis by (intro conjI)
qed

text \<open>
  C6. Move construction and move assignment between two distinct queues hand the source's
  whole contents to the destination and leave the source empty: afterwards the destination
  holds exactly the elements the source held, with the source's size, whatever the
  destination held before; the source has a null \<open>front_\<close>, a null \<open>rear_\<close> and size 0.
  Both calls always return.
\<close>

theorem move_semantics:
  assumes neq: "this \<noteq> other" and io: "queue_inv other st"
    and mo: "\<not> mutex' (objs st other)"
  shows "(\<exists>st'. move_construct this other st = Inr st' \<and> moved this other st st') \<and>
     (queue_inv this st \<and> separate this other st \<and> \<not> mutex' (objs st this) \<longrightarrow>
        (\<exists>st'. move_assign this other st = Inr st' \<and> moved this other st st'))"
proof (intro conjI impI)
  from io obtain ms where ro: "repr other st ms" by (auto simp: queue_inv_iff)
  from move_construct_effect [OF neq ro mo] obtain st' where
    r: "move_construct this other st = Inr st'" "repr this st' ms" "repr other st' []"
    "front' (objs st' other) = 0" "rear' (objs st' other) = 0" "size' (objs st' other) = 0"
    "size' (objs st' this) = size' (objs st other)"
    by blast
  have "moved this other st st'"
    unfolding moved_def
    using r(2-7) elements_repr [OF ro] elements_repr [OF r(2)] elements_repr [OF r(3)]
    by (auto simp: queue_inv_iff)
  with r(1) show "\<exists>st'. move_construct this other st = Inr st' \<and> moved this other st st'"
    by blast
next
  assume a: "queue_inv this st \<and> separate this other st \<and> \<not> mutex' (objs st this)"
  from io obtain ms where ro: "repr other st ms" by (auto simp: queue_inv_iff)
  from a obtain ns where rt: "repr this st ns" by (auto simp: queue_inv_iff)
  from a have dj: "fst ` set ns \<inter> fst ` set ms = {}"
    by (simp add: separate_repr [OF rt ro])
  from a have mt: "\<not> mutex' (objs st this)" by simp
  from move_assign_effect [OF neq rt ro dj mt mo] obtain st' where
    r: "move_assign this other st = Inr st'" "repr this st' ms" "repr other st' []"
    "front' (objs st' other) = 0" "rear' (objs st' other) = 0" "size' (objs st' other) = 0"
    "size' (objs st' this) = size' (objs st other)"
    by blast
  have "moved this other st st'"
    unfolding moved_def
    using r(2-7) elements_repr [OF ro] elements_repr [OF r(2)] elements_repr [OF r(3)]
    by (auto simp: queue_inv_iff)
  with r(1) show "\<exists>st'. move_assign this other st = Inr st' \<and> moved this other st st'"
    by blast
qed

theorem move_semantics_witness:
  "(1::nat) \<noteq> 0 \<and> queue_inv 0 example_state \<and> \<not> mutex' (objs example_state 0) \<and>
   queue_inv 1 example_state \<and> separate 1 0 example_state \<and>
   \<not> mutex' (objs example_state 1) \<and>
   (\<exists>st'. move_construct 1 0 example_state = Inr st' \<and> moved 1 0 example_state st') \<and>
   (\<exists>st'. move_assign 1 0 example_state = Inr st' \<and> moved 1 0 example_state st')"
proof -
  have n: "(1::nat) \<noteq> 0" by simp
  from move_semantics [OF n ex_inv0 ex_mutex] ex_inv0 ex_inv1 ex_sep10 ex_mutex
  show ?thesis by simp
qed

text \<open>
  C7. Copy construction and copy assignment between two distinct queues leave the
  destination holding a duplicate of the source's elements in the same order (copy
  assignment clears the destination first) and leave the source as it was. The two
  queues then share no node, and a push or any removal on one of them changes neither the
  elements nor the size of the other. The copy returns whenever there is memory for the
  duplicates.
\<close>

theorem copy_semantics:
  assumes neq: "this \<noteq> other" and ok: "heap_ok st" and io: "queue_inv other st"
    and mo: "\<not> mutex' (objs st other)"
  shows "(can_alloc (unat (size' (objs st other))) st \<longrightarrow>
            (\<exists>st'. copy_construct this other st = Inr st')) \<and>
     (\<forall>st'. copy_construct this other st = Inr st' \<longrightarrow>
        copied this other st st' \<and> independent this other st' \<and> independent other this st') \<and>
     (queue_inv this st \<and> separate this other st \<and> \<not> mutex' (objs st this) \<longrightarrow>
        (can_alloc (unat (size' (objs st other))) st \<longrightarrow>
           (\<exists>st'. copy_assign this other st = Inr st')) \<and>
        (\<forall>st'. copy_assign this other st = Inr st' \<longrightarrow>
           copied this other st st' \<and> independent this other st' \<and>
           independent other this st'))"
proof -
  from io obtain ms where ro: "repr other st ms" by (auto simp: queue_inv_iff)
  then have sz: "unat (size' (objs st other)) = length ms" by (simp add: repr_def)
  have c1: "can_alloc (unat (size' (objs st other))) st \<longrightarrow>
            (\<exists>st'. copy_construct this other st = Inr st')"
    unfolding sz using copy_construct_succeeds [OF neq ok ro mo] by blast
  have c2: "copied this other st st' \<and> independent this other st' \<and> independent other this st'"
    if res: "copy_construct this other st = Inr st'" for st'
  proof -
    from copy_construct_effect [OF neq ok ro mo res] obtain ks where
      "repr this st' ks" "map snd ks = map snd ms" "repr other st' ms" "heap_ok st'"
      "fst ` set ks \<inter> fst ` set ms = {}" "objs st' other = objs st other"
      by blast
    with neq ro show ?thesis by (intro copied_independentI)
  qed
  have c3: "(can_alloc (unat (size' (objs st other))) st \<longrightarrow>
           (\<exists>st'. copy_assign this other st = Inr st')) \<and>
        (\<forall>st'. copy_assign this other st = Inr st' \<longrightarrow>
           copied this other st st' \<and> independent this other st' \<and>
           independent other this st')"
    if a: "queue_inv this st \<and> separate this other st \<and> \<not> mutex' (objs st this)"
  proof -
    from a obtain ns where rt: "repr this st ns" by (auto simp: queue_inv_iff)
    from a have dj: "fst ` set ns \<inter> fst ` set ms = {}"
      by (simp add: separate_repr [OF rt ro])
    from a have mt: "\<not> mutex' (objs st this)" by simp
    have s: "can_alloc (unat (size' (objs st other))) st \<longrightarrow>
           (\<exists>st'. copy_assign this other st = Inr st')"
      unfolding sz using copy_assign_succeeds [OF neq ok rt ro dj mt mo] by blast
    have e: "copied this other st st' \<and> independent this other st' \<and>
           independent other this st'"
      if res: "copy_assign this other st = Inr st'" for st'
    proof -
      from copy_assign_effect [OF neq ok rt ro dj mt mo res] obtain ks where
        "repr this st' ks" "map snd ks = map snd ms" "repr other st' ms" "heap_ok st'"
        "fst ` set ks \<inter> fst ` set ms = {}" "objs st' other = objs st other"
        by blast
      with neq ro show ?thesis by (intro copied_independentI)
    qed
    from s e show ?thesis by blast
  qed
  from c1 c2 c3 show ?thesis by blast
qed

theorem copy_semantics_witness:
  "(1::nat) \<noteq> 0 \<and> heap_ok example_state \<and> queue_inv 0 example_state \<and>
   \<not> mutex' (objs example_state 0) \<and>
   can_alloc (unat (size' (objs example_state 0))) example_state \<and>
   queue_inv 1 example_state \<and> separate 1 0 example_state \<and>
   \<not> mutex' (objs example_state 1) \<and>
   (\<exists>st'. copy_construct 1 0 example_state = Inr st' \<and> copied 1 0 example_state st' \<and>
      independent 1 0 st' \<and> independent 0 1 st') \<and>
   (\<exists>st'. copy_assign 1 0 example_state = Inr st' \<and> copied 1 0 example_state st' \<and>
      independent 1 0 st' \<and> independent 0 1 st')"
proof -
  have n: "(1::nat) \<noteq> 0" by simp
  have ca: "can_alloc (unat (size' (objs example_state 0))) example_state"
    by (simp add: can_alloc_def example_state_def)
  note t = copy_semantics [OF n ex_heap_ok ex_inv0 ex_mutex]
  from t ca obtain s1 where s1: "copy_construct 1 0 example_state = Inr s1" by blast
  with t have p1: "copied 1 0 example_state s1 \<and> independent 1 0 s1 \<and> independent 0 1 s1"
    by blast
  from t ca ex_inv1 ex_sep10 ex_mutex obtain s2 where
    s2: "copy_assign 1 0 example_state = Inr s2" by blast
  with t ex_inv1 ex_sep10 ex_mutex
  have p2: "copied 1 0 example_state s2 \<and> independent 1 0 s2 \<and> independent 0 1 s2"
    by blast
  from s1 p1 s2 p2 n ex_heap_ok ex_inv0 ex_inv1 ex_sep10 ex_mutex ca show ?thesis
    by simp
qed

text \<open>
  C8. Copy-assigning and move-assigning a queue to itself return without touching the
  state, whatever the state is. They take no lock; locking the queue's mutex twice, as
  the body of either operator would, never returns.
\<close>

theorem self_assignment:
  "copy_assign this this st = Inr st \<and> move_assign this this st = Inr st \<and>
   lock2 this this st = Inl Deadlock"
  by (simp add: copy_assign_def move_assign_def lock2_def lock_def split: sum.splits)

text \<open>
  C9. On a non-empty queue \<open>try_peek\<close> returns a copy of the front element, the value
  that each removal call returns on the same state, and leaves the whole state as it was;
  on an empty queue it returns "no value".
\<close>

theorem try_peek_nondestructive:
  assumes inv: "queue_inv this st" and mtx: "\<not> mutex' (objs st this)"
  shows "(empty_unsafe this st \<longrightarrow> try_peek this v st = Inr (False, v, st)) \<and>
     (\<not> empty_unsafe this st \<longrightarrow>
        (\<exists>x xs st'. elements this st = Some (x # xs) \<and>
           try_peek this v st = Inr (True, x, st) \<and>
           try_pop this w st = Inr (True, x, st') \<and>
           pop this w st = Some (Inr (x, st')) \<and>
           pop_timed this w timeout st = Inr (True, x, st')))"
proof (intro conjI impI)
  assume "empty_unsafe this st"
  with mtx show "try_peek this v st = Inr (False, v, st)"
    by (simp add: empty_unsafe_def try_peek_empty)
next
  assume ne: "\<not> empty_unsafe this st"
  from inv obtain ns where rp: "repr this st ns" by (auto simp: queue_inv_iff)
  from repr_nonempty [OF rp ne] obtain a x ms where ns: "ns = (a, x) # ms" by auto
  from rp have nd: "nodes this st = Some ((a, x) # ms)"
    and rear: "rear' (objs st this) = fst (last ((a, x) # ms))"
    by (simp_all add: repr_def ns)
  from try_pop_effect [OF nd rear mtx, of w] obtain st' where
    tp: "try_pop this w st = Inr (True, x, st')" by auto
  have "elements this st = Some (x # map snd ms)"
    using elements_repr [OF rp] by (simp add: ns)
  moreover have "try_peek this v st = Inr (True, x, st)"
    by (rule try_peek_nonempty [OF mtx nd])
  moreover have "pop this w st = Some (Inr (x, st'))"
    by (rule pop_nonempty [OF mtx ne tp])
  ultimately show "\<exists>x xs st'. elements this st = Some (x # xs) \<and>
           try_peek this v st = Inr (True, x, st) \<and>
           try_pop this w st = Inr (True, x, st') \<and>
           pop this w st = Some (Inr (x, st')) \<and>
           pop_timed this w timeout st = Inr (True, x, st')"
    using tp by (auto simp: pop_timed_eq)
qed

theorem try_peek_nondestructive_witness:
  "queue_inv 0 example_state \<and> \<not> mutex' (objs example_state 0) \<and>
   \<not> empty_unsafe 0 example_state \<and>
   (\<exists>x xs st'. elements 0 example_state = Some (x # xs) \<and>
      try_peek 0 7 example_state = Inr (True, x, example_state) \<and>
      try_pop 0 8 example_state = Inr (True, x, st') \<and>
      pop 0 8 example_state = Some (Inr (x, st')) \<and>
      pop_timed 0 8 250 example_state = Inr (True, x, st')) \<and>
   empty_unsafe 2 example_state \<and>
   try_peek 2 7 example_state = Inr (False, 7, example_state)"
proof -
  have e: "\<not> empty_unsafe 0 example_state" "empty_unsafe 2 example_state"
    by (simp_all add: empty_unsafe_def example_state_def)
  have m: "\<not> mutex' (objs example_state 0)" "\<not> mutex' (objs example_state 2)"
    by (simp_all add: example_state_def)
  have q: "queue_inv 2 example_state"
    by (simp add: queue_inv_def nodes_def chain.simps example_state_def)
  from try_peek_nondestructive [OF ex_inv0 m(1), of 7 8 250]
    try_peek_nondestructive [OF q m(2), of 7 8 250] ex_inv0 e m
  show ?thesis by simp
qed

text \<open>
  C10. Whenever \<open>try_pop\<close>, the timed \<open>pop\<close> or \<open>try_peek\<close> returns false, the
  caller's variable holds what it held before the call.
\<close>

theorem failure_keeps_out_parameter:
  "(try_pop this v st = Inr (False, v', st') \<longrightarrow> v' = v) \<and>
   (pop_timed this v timeout st = Inr (False, v', st') \<longrightarrow> v' = v) \<and>
   (try_peek this v st = Inr (False, v', st') \<longrightarrow> v' = v)"
  by (auto simp: pop_timed_eq try_pop_def try_peek_def Let_def
        split: sum.splits if_splits option.splits)

theorem failure_keeps_out_parameter_witness:
  "try_pop 0 (7::nat) init_state = Inr (False, 7, init_state) \<and>
   pop_timed 0 (7::nat) 250 init_state = Inr (False, 7, init_state) \<and>
   try_peek 0 (7::nat) init_state = Inr (False, 7, init_state)"
proof -
  have m: "\<not> mutex' (objs (init_state :: nat state) 0)"
    and f: "front' (objs (init_state :: nat state) 0) = 0"
    by (simp_all add: init_state_def)
  have "(7::nat) = 7"
    using failure_keeps_out_parameter [of 0 "7::nat" init_state 7 init_state 250]
    by simp
  then show ?thesis
    using m f by (simp add: try_pop_empty pop_timed_empty try_peek_empty)
qed

end
